theory Spec2Isabelle
  imports Main "HOL-Library.Word" "HOL-Library.Code_Target_Numeral"
begin

unbundle bit_operations_syntax

section \<open>The log file of the KML exporter\<close>

text \<open>
  \<^verbatim>\<open>kmlexport.cpp\<close> reads a recorded telemetry log in two passes:
  \<^verbatim>\<open>KmlExport::preparseLogFile\<close> walks the frames and records where each one starts and
  its timestamp, and \<^verbatim>\<open>KmlExport::parseLogFile\<close> replays the frames and hands each payload
  byte to the UAVTalk decoder. Both work on the member \<^verbatim>\<open>logFile\<close>, a QFile opened
  read-only. This theory embeds the two passes and the part of QFile they use.
\<close>

subsection \<open>Bytes and the storage of integer variables\<close>

type_synonym byte = "8 word"

text \<open>
  The source reads the header fields with \<^verbatim>\<open>logFile.read((char *) &v, sizeof(v))\<close>: the
  bytes of the file are copied over the storage of the variable, in the byte order of the
  host. The host is little-endian (the first byte is the least significant one), as the
  log format is. \<open>le_val\<close> is the number a byte sequence stores, \<open>le_bytes n v\<close> the
  \<open>n\<close> bytes that store \<open>v\<close>.
\<close>

fun le_val :: "byte list \<Rightarrow> nat" where
  "le_val [] = 0"
| "le_val (b # bs) = unat b + 256 * le_val bs"

fun le_bytes :: "nat \<Rightarrow> nat \<Rightarrow> byte list" where
  "le_bytes 0 v = []"
| "le_bytes (Suc n) v = of_nat (v mod 256) # le_bytes n (v div 256)"

text \<open>
  A read that comes back with fewer bytes than asked for (a short read at the end of the
  file) overwrites only the first bytes of the variable: the others keep what the
  variable held before. \<open>read_into n old bs\<close> is the value of an \<open>n\<close>-byte variable
  that held \<open>old\<close> after the bytes \<open>bs\<close> were copied to its start.
\<close>

definition read_into :: "nat \<Rightarrow> 'a::len word \<Rightarrow> byte list \<Rightarrow> 'a word" where
  "read_into n old bs = of_nat (le_val (bs @ drop (length bs) (le_bytes n (unat old))))"

subsection \<open>QFile\<close>

text \<open>
  The file is its bytes, the position of the cursor, and whether it is open. The exporter
  opens it read-only, so the bytes never change. The operations are those of Qt's
  QIODevice and QFileDevice for a regular file: \<^verbatim>\<open>atEnd\<close> holds on a closed file and
  whenever the cursor is at or past the last byte; \<^verbatim>\<open>bytesAvailable\<close> is the size minus
  the position, and 0 past the end; \<^verbatim>\<open>read\<close> returns the bytes that are there, at most
  as many as asked for, and moves the cursor past them; \<^verbatim>\<open>seek\<close> moves the cursor, also
  past the end of the file; \<^verbatim>\<open>close\<close> puts the cursor back to 0.

  Positions are 64-bit in the source. They are natural numbers here: a position never
  exceeds the size of the file by more than 12 + 65535, so nothing wraps around.
\<close>

record qfile =
  content :: "byte list"
  fpos :: nat
  is_open :: bool

definition atEnd :: "qfile \<Rightarrow> bool" where
  "atEnd f = (\<not> is_open f \<or> length (content f) \<le> fpos f)"

definition bytesAvailable :: "qfile \<Rightarrow> nat" where
  "bytesAvailable f = length (content f) - fpos f"

definition qread :: "qfile \<Rightarrow> nat \<Rightarrow> byte list \<times> qfile" where
  "qread f n =
     (if is_open f
      then (let bs = take n (drop (fpos f) (content f))
            in (bs, f\<lparr>fpos := fpos f + length bs\<rparr>))
      else ([], f))"

definition seek :: "qfile \<Rightarrow> nat \<Rightarrow> qfile" where
  "seek f p = (if is_open f then f\<lparr>fpos := p\<rparr> else f)"

definition close :: "qfile \<Rightarrow> qfile" where
  "close f = f\<lparr>fpos := 0, is_open := False\<rparr>"

subsection \<open>The exporter's state\<close>

text \<open>
  What the source shows to the user or writes to the debug log: the debug line of a
  failed sync check (with the position of the cursor after the header read and the
  offending bits), the dialog and debug line of a timestamp that goes backwards (with
  the previous timestamp and the new one), the dialog of an empty log, and the debug
  line and dialog of an unlikely packet size.
\<close>

datatype message =
    WrongSyncByte nat "64 word"
  | TimestampsNotSequential "32 word" "32 word"
  | EmptyLogfile
  | IncorrectPacketSize "64 word"

text \<open>
  The members of \<^verbatim>\<open>KmlExport\<close> the two passes touch. \<open>kmlTalk\<close> stands for the UAVTalk
  decoder: the bytes handed to \<^verbatim>\<open>processInputByte\<close> so far, in the order of the calls.
  The header that declares the members is not among the sources: \<^verbatim>\<open>timeStamp\<close> is
  taken to be an unsigned 32-bit integer, as the local \<^verbatim>\<open>lastTimeStamp\<close> of the index
  pass is, and the index to hold 32-bit timestamps and file positions.
\<close>

record kml_export =
  logFile :: qfile
  timestampBuffer :: "32 word list"
  timestampPos :: "nat list"
  timeStamp :: "32 word"
  kmlTalk :: "byte list"
  messages :: "message list"

definition stopExport :: "kml_export \<Rightarrow> kml_export" where
  "stopExport s = s\<lparr>logFile := close (logFile s)\<rparr>"

subsection \<open>The index pass: preparseLogFile\<close>

text \<open>
  One turn of the \<^verbatim>\<open>while (!logFile.atEnd())\<close> loop. \<open>lastTimeStamp\<close> is the local
  that lives across the turns; \<^verbatim>\<open>dataSize\<close> is declared inside the loop without an
  initialiser, so what it holds before the read is indeterminate: \<open>uninit p\<close> stands for
  that content in the turn that starts at position \<open>p\<close> (it shows only when the read of
  the size field is short). The result is the new \<open>lastTimeStamp\<close> and the new state;
  both the \<^verbatim>\<open>continue\<close> of the resync branch and the end of the body lead to the next
  test of the loop condition.
\<close>

definition preparse_body ::
  "(nat \<Rightarrow> 64 word) \<Rightarrow> 32 word \<Rightarrow> kml_export \<Rightarrow> 32 word \<times> kml_export" where
  "preparse_body uninit lastTimeStamp s =
     (let s1 = s\<lparr>timestampPos := timestampPos s @ [fpos (logFile s)]\<rparr>;
          (b4, f1) = qread (logFile s1) 4;
          lastTimeStamp' = read_into 4 lastTimeStamp b4;
          (b8, f2) = qread f1 8;
          dataSize = read_into 8 (uninit (fpos (logFile s))) b8
      in if dataSize AND 0xFFFFFFFFFFFF0000 \<noteq> 0
         then (lastTimeStamp',
               s1\<lparr>messages := messages s1 @ [WrongSyncByte (fpos f2) (dataSize AND 0xFFFFFFFFFFFF0000)],
                  logFile := seek f2 (last (timestampPos s1) + 1),
                  timestampPos := butlast (timestampPos s1)\<rparr>)
         else
           (let s2 = (if timestampBuffer s1 \<noteq> [] \<and> lastTimeStamp' < last (timestampBuffer s1)
                      then s1\<lparr>messages := messages s1 @
                                 [TimestampsNotSequential (last (timestampBuffer s1)) lastTimeStamp']\<rparr>
                      else s1)
            in (lastTimeStamp',
                s2\<lparr>timestampBuffer := timestampBuffer s2 @ [lastTimeStamp'],
                   logFile := seek f2 (last (timestampPos s2) + 4 + 8 + unat dataSize)\<rparr>)))"

function preparse_loop :: "(nat \<Rightarrow> 64 word) \<Rightarrow> 32 word \<Rightarrow> kml_export \<Rightarrow> kml_export" where
  "preparse_loop uninit lastTimeStamp s =
     (if atEnd (logFile s) then s
      else (case preparse_body uninit lastTimeStamp s of
              (lastTimeStamp', s') \<Rightarrow> preparse_loop uninit lastTimeStamp' s'))"
  by pat_completeness auto
termination
  by (relation "measure (\<lambda>(uninit, l, s). length (content (logFile s)) - fpos (logFile s))")
     (auto simp: preparse_body_def atEnd_def qread_def seek_def Let_def
           split: if_splits prod.splits)

declare preparse_loop.simps [simp del]

text \<open>
  The whole function: it clears the index, remembers where the cursor is, runs the loop,
  and then either reports an empty log, closes the file and returns false, or puts the
  cursor back and returns true.
\<close>

definition preparseLogFile :: "(nat \<Rightarrow> 64 word) \<Rightarrow> kml_export \<Rightarrow> bool \<times> kml_export" where
  "preparseLogFile uninit s =
     (let s0 = s\<lparr>timestampBuffer := [], timestampPos := []\<rparr>;
          logFileStartIdx = fpos (logFile s0);
          s1 = preparse_loop uninit 0 s0
      in if length (timestampBuffer s1) = 0
         then (False, stopExport (s1\<lparr>messages := messages s1 @ [EmptyLogfile]\<rparr>))
         else (True, s1\<lparr>logFile := seek (logFile s1) logFileStartIdx\<rparr>))"

subsection \<open>The streaming pass: parseLogFile\<close>

text \<open>
  The source is a \<^verbatim>\<open>void\<close> function; how its loop ended is made a value here.
  \<open>StoppedOnCorruption\<close> is the \<^verbatim>\<open>break\<close> of the packet size check, after the
  "Incorrect packet size" dialog; every other way out of the loop is \<open>Completed\<close>.
\<close>

datatype status = Completed | StoppedOnCorruption

text \<open>
  One turn of the loop either goes on to the next test of the loop condition or breaks.
  \<^verbatim>\<open>packetSize\<close> (a signed 64-bit integer) and \<^verbatim>\<open>timeStampIdx\<close> are locals declared
  before the loop, neither initialised: they are parameters of the model.
\<close>

datatype turn =
    Next "64 word" "32 word" kml_export
  | Break status "32 word" kml_export

definition parse_body :: "64 word \<Rightarrow> 32 word \<Rightarrow> kml_export \<Rightarrow> turn" where
  "parse_body packetSize timeStampIdx s =
     (if bytesAvailable (logFile s) < 4 then Break Completed timeStampIdx s
      else
        (let (b4, f1) = qread (logFile s) 4;
             s1 = s\<lparr>timeStamp := read_into 4 (timeStamp s) b4\<rparr>;
             (b8, f2) = qread f1 8;
             packetSize' = read_into 8 packetSize b8;
             s2 = s1\<lparr>logFile := f2\<rparr>
         in if sint packetSize' < 1 \<or> sint packetSize' > 1024 * 1024
            then Break StoppedOnCorruption timeStampIdx
                   (s2\<lparr>messages := messages s2 @ [IncorrectPacketSize packetSize']\<rparr>)
            else if int (bytesAvailable (logFile s2)) < sint packetSize'
            then Break Completed timeStampIdx s2
            else
              (let (dataBuffer, f3) = qread (logFile s2) (nat (sint packetSize'))
               in Next packetSize' (timeStampIdx + 1)
                    (s2\<lparr>logFile := f3, kmlTalk := kmlTalk s2 @ dataBuffer\<rparr>))))"

function parse_loop :: "64 word \<Rightarrow> 32 word \<Rightarrow> kml_export \<Rightarrow> status \<times> 32 word \<times> kml_export" where
  "parse_loop packetSize timeStampIdx s =
     (if atEnd (logFile s) then (Completed, timeStampIdx, s)
      else (case parse_body packetSize timeStampIdx s of
              Break st idx s' \<Rightarrow> (st, idx, s')
            | Next packetSize' idx s' \<Rightarrow> parse_loop packetSize' idx s'))"
  by pat_completeness auto
termination
  by (relation "measure (\<lambda>(ps, idx, s). length (content (logFile s)) - fpos (logFile s))")
     (auto simp: parse_body_def atEnd_def bytesAvailable_def qread_def Let_def
           split: if_splits prod.splits)

declare parse_loop.simps [simp del]

text \<open>The whole function: the loop, then \<^verbatim>\<open>stopExport()\<close>.\<close>

definition parseLogFile :: "64 word \<Rightarrow> 32 word \<Rightarrow> kml_export \<Rightarrow> status \<times> 32 word \<times> kml_export" where
  "parseLogFile packetSize timeStampIdx s =
     (case parse_loop packetSize timeStampIdx s of
        (st, idx, s') \<Rightarrow> (st, idx, stopExport s'))"

subsection \<open>Frames as the log stores them\<close>

text \<open>
  The writer of the log is not among the sources; the layout of a frame is the one both
  passes read: the timestamp in 4 bytes, the size of the payload in 8 bytes, both
  little-endian, then the payload.
\<close>

type_synonym frame = "32 word \<times> byte list"

definition encode_frame :: "32 word \<Rightarrow> byte list \<Rightarrow> byte list" where
  "encode_frame T P = le_bytes 4 (unat T) @ le_bytes 8 (length P) @ P"

fun encode_frames :: "frame list \<Rightarrow> byte list" where
  "encode_frames [] = []"
| "encode_frames ((T, P) # fs) = encode_frame T P @ encode_frames fs"

text \<open>Where the frames of a sequence start when the first one starts at \<open>p\<close>.\<close>

fun frame_offsets :: "nat \<Rightarrow> frame list \<Rightarrow> nat list" where
  "frame_offsets p [] = []"
| "frame_offsets p ((T, P) # fs) = p # frame_offsets (p + 12 + length P) fs"

text \<open>
  An exporter whose log file holds the bytes \<open>d\<close>, open, with the cursor at \<open>p\<close>, and
  that has neither indexed nor decoded nor reported anything yet.
\<close>

definition log_at :: "byte list \<Rightarrow> nat \<Rightarrow> kml_export" where
  "log_at d p =
     \<lparr>logFile = \<lparr>content = d, fpos = p, is_open = True\<rparr>,
      timestampBuffer = [], timestampPos = [], timeStamp = 0, kmlTalk = [], messages = []\<rparr>"

text \<open>
  The dialogs about timestamps that go backwards which a sequence of frames gives rise
  to, when \<open>buf\<close> holds the timestamps indexed before it: one for each frame whose
  timestamp is below the one indexed just before.
\<close>

fun order_messages :: "32 word list \<Rightarrow> frame list \<Rightarrow> message list" where
  "order_messages buf [] = []"
| "order_messages buf ((T, P) # fs) =
     (if buf \<noteq> [] \<and> T < last buf then [TimestampsNotSequential (last buf) T] else [])
     @ order_messages (buf @ [T]) fs"

text \<open>
  What a turn of the index pass that starts at position \<open>p\<close> of the bytes \<open>d\<close> finds
  in \<^verbatim>\<open>dataSize\<close> after its two reads: the 8 bytes that follow the 4 of the timestamp,
  or, near the end of the file, the bytes that are left over the indeterminate content.
  A span of \<open>k\<close> positions from \<open>p\<close> fails the sync check when at every one of them
  some bit above the low 16 is set.
\<close>

definition dataSize_at :: "(nat \<Rightarrow> 64 word) \<Rightarrow> byte list \<Rightarrow> nat \<Rightarrow> 64 word" where
  "dataSize_at uninit d p = read_into 8 (uninit p) (take 8 (drop (p + 4) d))"

fun span_fails :: "(nat \<Rightarrow> 64 word) \<Rightarrow> byte list \<Rightarrow> nat \<Rightarrow> nat \<Rightarrow> bool" where
  "span_fails uninit d p 0 = True"
| "span_fails uninit d p (Suc k) =
     (dataSize_at uninit d p AND 0xFFFFFFFFFFFF0000 \<noteq> 0 \<and> span_fails uninit d (Suc p) k)"

text \<open>All frames of a sequence have a payload whose length fits the low 16 bits.\<close>

definition well_formed :: "frame list \<Rightarrow> bool" where
  "well_formed fs = list_all (\<lambda>(T, P). length P < 65536) fs"

text \<open>
  All frames of a sequence have a payload the streaming pass accepts: at least one byte
  and at most 1024 * 1024.
\<close>

definition streamable :: "frame list \<Rightarrow> bool" where
  "streamable fs = list_all (\<lambda>(T, P). 1 \<le> length P \<and> length P \<le> 1048576) fs"

subsection \<open>Example logs\<close>

text \<open>
  Three frames: the payload 1, 2, 3 at timestamp 5, an empty payload at timestamp 3, and
  the payload 9 at timestamp 7.
\<close>

definition three_frames :: "byte list" where
  "three_frames = encode_frames [(5, [1, 2, 3]), (3, []), (7, [9])]"



text \<open>
  Indeterminate contents for \<^verbatim>\<open>dataSize\<close>: all bits clear in every turn, or all bits
  set in every turn.
\<close>

definition zeroed :: "nat \<Rightarrow> 64 word" where
  "zeroed p = 0"

definition all_ones :: "nat \<Rightarrow> 64 word" where
  "all_ones p = - 1"

text \<open>
  The index pass on \<open>three_frames\<close> after its first turn: the first frame is indexed
  and the cursor is at the second frame, at offset 15.
\<close>

definition after_first_frame :: kml_export where
  "after_first_frame = (log_at three_frames 15)\<lparr>timestampBuffer := [5], timestampPos := [0]\<rparr>"

text \<open>
  A log of four frames with the payload 0x3C, 0x20 and the timestamps 1 to 4, in which
  one bit of the size field of the second frame is flipped (its highest byte is 0x80
  instead of 0). The frames start at the offsets 0, 14, 28 and 42.
\<close>

definition flipped_bit_log :: "byte list" where
  "flipped_bit_log =
     encode_frame 1 [0x3C, 0x20]
     @ (le_bytes 4 2 @ [2, 0, 0, 0, 0, 0, 0, 0x80] @ [0x3C, 0x20])
     @ encode_frame 3 [0x3C, 0x20]
     @ encode_frame 4 [0x3C, 0x20]"

text \<open>
  A header whose twelve bytes are all 1, and a log in which it stands between the frame
  with timestamp 1 and payload 7 and a frame with timestamp 0x01020304 and a payload of
  257 bytes.
\<close>

definition noise_header :: "byte list" where
  "noise_header = replicate 12 1"

definition resync_log :: "byte list" where
  "resync_log =
     encode_frames [(1, [7])] @ noise_header @ encode_frames [(0x01020304, replicate 257 9)]"

text \<open>A log that is one header and nothing else: timestamp 7, a payload of 5 bytes announced.\<close>

definition header_only_log :: "byte list" where
  "header_only_log = le_bytes 4 7 @ le_bytes 8 5"


text \<open>
  A log of one frame with timestamp 1 and payload 9, followed by five more bytes: less
  than a header. The streaming pass is at offset 13 after its first turn, with the
  timestamp 1 read and the payload handed to the decoder.
\<close>

definition truncated_header_log :: "byte list" where
  "truncated_header_log = encode_frame 1 [9] @ [1, 2, 3, 4, 0]"

definition before_truncated_header :: kml_export where
  "before_truncated_header = (log_at truncated_header_log 13)\<lparr>timeStamp := 1, kmlTalk := [9]\<rparr>"


text \<open>
  Two frames the streaming pass accepts, with the payloads 1, 2, 3 and 4, followed by a
  header with timestamp 7 whose size field is 0, or 1024 * 1024 + 1, and two more bytes.
\<close>

definition zero_size_log :: "byte list" where
  "zero_size_log =
     encode_frames [(5, [1, 2, 3]), (6, [4])] @ le_bytes 4 (unat (7 :: 32 word)) @ le_bytes 8 0 @ [8, 8]"

definition huge_size_log :: "byte list" where
  "huge_size_log =
     encode_frames [(5, [1, 2, 3]), (6, [4])] @ le_bytes 4 (unat (7 :: 32 word)) @ le_bytes 8 1048577
     @ [8, 8]"

text \<open>
  The same two frames followed by a header with timestamp 7 that announces 4 bytes of
  payload, of which the file holds 2.
\<close>

definition truncated_tail_log :: "byte list" where
  "truncated_tail_log =
     encode_frames [(5, [1, 2, 3]), (6, [4])] @ le_bytes 4 (unat (7 :: 32 word)) @ le_bytes 8 4 @ [8, 8]"


section \<open>Bytes, words and reads\<close>

lemma length_le_bytes [simp]: "length (le_bytes n v) = n"
  by (induction n arbitrary: v) auto

lemma le_val_le_bytes: "le_val (le_bytes n v) = v mod 256 ^ n"
proof (induction n arbitrary: v)
  case 0
  show ?case by simp
next
  case (Suc n)
  have "unat (of_nat (v mod 256) :: byte) = v mod 256"
    by (simp add: unat_of_nat)
  with Suc show ?case
    by (simp add: mod_mult2_eq)
qed

lemma read_into_full: "length bs = n \<Longrightarrow> read_into n old bs = of_nat (le_val bs)"
  by (simp add: read_into_def)

lemma read_into_timestamp: "read_into 4 old (le_bytes 4 (unat (T :: 32 word))) = T"
proof -
  have "unat T mod 256 ^ 4 = unat T"
    using unsigned_less [of T, where ?'a = nat] by simp
  then show ?thesis by (simp add: read_into_full le_val_le_bytes)
qed

lemma read_into_size:
  "n < 2 ^ 64 \<Longrightarrow> read_into 8 old (le_bytes 8 n) = (of_nat n :: 64 word)"
  by (simp add: read_into_full le_val_le_bytes)

lemma unat_size: "n < 2 ^ 64 \<Longrightarrow> unat (of_nat n :: 64 word) = n"
  by (simp add: unat_of_nat)

lemma sint_size: "n < 2 ^ 63 \<Longrightarrow> sint (of_nat n :: 64 word) = int n"
  by (simp add: signed_of_nat signed_take_bit_int_eq_self)

lemma sint_size_neg:
  assumes "2 ^ 63 \<le> n" and "n < 2 ^ 64"
  shows "sint (of_nat n :: 64 word) < 0"
proof -
  have "int n div 2 ^ 63 = 1"
    using assms by (intro int_div_pos_eq [where r = "int n - 2 ^ 63"]) auto
  then have "bit (int n) 63"
    by (simp add: bit_iff_odd)
  then show ?thesis
    by (simp add: signed_of_nat)
qed

lemma sync_mask: "(0xFFFFFFFFFFFF0000 :: 64 word) = NOT (mask 16)"
  by (simp add: mask_eq_exp_minus_1)

lemma and_not_mask_0: "(w :: 64 word) AND NOT (mask 16) = 0 \<longleftrightarrow> w AND mask 16 = w"
  by (auto simp: bit_eq_iff bit_simps)

lemma sync_check_iff: "(w :: 64 word) AND 0xFFFFFFFFFFFF0000 = 0 \<longleftrightarrow> unat w < 65536"
proof -
  have e: "(2::int) ^ 16 = 65536" by simp
  have "uint w < 2 ^ 16 \<longleftrightarrow> unat w < 65536"
    unfolding unat_eq_nat_uint e using uint_ge_0 [of w] by linarith
  then show ?thesis
    unfolding sync_mask and_not_mask_0 mask_eq_iff by simp
qed

lemma sync_check_size:
  "n < 65536 \<Longrightarrow> (of_nat n :: 64 word) AND 0xFFFFFFFFFFFF0000 = 0"
  by (simp add: sync_check_iff unat_size)

lemma drop_past: "drop p c = a @ r \<Longrightarrow> drop (p + length a) c = r"
  by (metis add.commute append_eq_conv_conj drop_drop)

lemma qread_prefix:
  "is_open f \<Longrightarrow> drop (fpos f) (content f) = a @ r \<Longrightarrow> length a = n \<Longrightarrow>
   qread f n = (a, f\<lparr>fpos := fpos f + n\<rparr>)"
  by (auto simp: qread_def)

lemma length_encode_frame [simp]: "length (encode_frame T P) = 12 + length P"
  by (simp add: encode_frame_def)

text \<open>The header read both passes start with, on a file that holds a whole header.\<close>

lemma read_header:
  assumes "is_open f"
    and "drop (fpos f) (content f) = le_bytes 4 a @ le_bytes 8 b @ r"
  shows "qread f 4 = (le_bytes 4 a, f\<lparr>fpos := fpos f + 4\<rparr>)"
    and "qread (f\<lparr>fpos := fpos f + 4\<rparr>) 8 = (le_bytes 8 b, f\<lparr>fpos := fpos f + 12\<rparr>)"
    and "drop (fpos f + 12) (content f) = r"
proof -
  show "qread f 4 = (le_bytes 4 a, f\<lparr>fpos := fpos f + 4\<rparr>)"
    using assms by (intro qread_prefix) auto
  have d: "drop (fpos f + 4) (content f) = le_bytes 8 b @ r"
    using drop_past [OF assms(2)] by simp
  then show "qread (f\<lparr>fpos := fpos f + 4\<rparr>) 8 = (le_bytes 8 b, f\<lparr>fpos := fpos f + 12\<rparr>)"
    using assms(1) by (simp add: qread_def)
  show "drop (fpos f + 12) (content f) = r"
    using drop_past [OF d] by (simp add: add.assoc)
qed

section \<open>The index pass on well-formed frames\<close>

lemma preparse_body_frame:
  assumes "is_open (logFile s)"
    and "drop (fpos (logFile s)) (content (logFile s)) = encode_frame T P @ r"
    and "length P < 65536"
  shows "preparse_body uninit l s =
         (T, s\<lparr>logFile := (logFile s)\<lparr>fpos := fpos (logFile s) + 12 + length P\<rparr>,
               timestampBuffer := timestampBuffer s @ [T],
               timestampPos := timestampPos s @ [fpos (logFile s)],
               messages := messages s @ order_messages (timestampBuffer s) [(T, P)]\<rparr>)"
proof -
  have d: "drop (fpos (logFile s)) (content (logFile s))
           = le_bytes 4 (unat T) @ le_bytes 8 (length P) @ (P @ r)"
    using assms(2) by (simp add: encode_frame_def)
  note h = read_header(1,2) [OF assms(1) d]
  have n: "length P < 2 ^ 64" using assms(3) by simp
  show ?thesis
    using assms(1,3)
    by (simp add: preparse_body_def h read_into_timestamp read_into_size [OF n]
        sync_check_size unat_size [OF n] seek_def)
qed


lemma well_formed_Cons [simp]:
  "well_formed ((T, P) # fs) \<longleftrightarrow> length P < 65536 \<and> well_formed fs"
  by (simp add: well_formed_def)

lemma well_formed_Nil [simp]: "well_formed []"
  by (simp add: well_formed_def)

lemma preparse_loop_atEnd: "atEnd (logFile s) \<Longrightarrow> preparse_loop uninit l s = s"
  by (simp add: preparse_loop.simps)

lemma preparse_loop_step:
  "\<not> atEnd (logFile s) \<Longrightarrow> preparse_body uninit l s = (l', s') \<Longrightarrow>
   preparse_loop uninit l s = preparse_loop uninit l' s'"
  by (simp add: preparse_loop.simps)

lemma not_atEnd_frame:
  "is_open f \<Longrightarrow> drop (fpos f) (content f) = encode_frame T P @ r \<Longrightarrow> \<not> atEnd f"
proof
  assume o: "is_open f" and d: "drop (fpos f) (content f) = encode_frame T P @ r"
    and e: "atEnd f"
  from o e have "drop (fpos f) (content f) = []" by (simp add: atEnd_def)
  with d have "length (encode_frame T P @ r) = 0" by simp
  then show False by simp
qed

text \<open>
  Running the loop over a sequence of well-formed frames: it indexes every one of them
  and arrives behind the last.
\<close>

lemma preparse_loop_frames:
  assumes "is_open (logFile s)"
    and "drop (fpos (logFile s)) (content (logFile s)) = encode_frames fs @ r"
    and "well_formed fs"
  shows "preparse_loop uninit l s =
         preparse_loop uninit (last (l # map fst fs))
           (s\<lparr>logFile := (logFile s)\<lparr>fpos := fpos (logFile s) + length (encode_frames fs)\<rparr>,
              timestampBuffer := timestampBuffer s @ map fst fs,
              timestampPos := timestampPos s @ frame_offsets (fpos (logFile s)) fs,
              messages := messages s @ order_messages (timestampBuffer s) fs\<rparr>)"
  using assms
proof (induction fs arbitrary: s l)
  case Nil
  then show ?case by simp
next
  case (Cons f fs)
  obtain T P where f: "f = (T, P)" by (cases f)
  let ?p = "fpos (logFile s)"
  let ?s' = "s\<lparr>logFile := (logFile s)\<lparr>fpos := ?p + 12 + length P\<rparr>,
               timestampBuffer := timestampBuffer s @ [T],
               timestampPos := timestampPos s @ [?p],
               messages := messages s @ order_messages (timestampBuffer s) [(T, P)]\<rparr>"
  from Cons.prems f have d: "drop ?p (content (logFile s)) = encode_frame T P @ (encode_frames fs @ r)"
    by simp
  from Cons.prems f have wf: "length P < 65536" "well_formed fs" by simp_all
  have b: "preparse_body uninit l s = (T, ?s')"
    by (rule preparse_body_frame [OF Cons.prems(1) d wf(1)])
  have ne: "\<not> atEnd (logFile s)"
    by (rule not_atEnd_frame [OF Cons.prems(1) d])
  have d': "drop (fpos (logFile ?s')) (content (logFile ?s')) = encode_frames fs @ r"
    using drop_past [OF d] by (simp add: add.assoc)
  have o': "is_open (logFile ?s')" using Cons.prems(1) by simp
  have "preparse_loop uninit l s = preparse_loop uninit T ?s'"
    by (rule preparse_loop_step [OF ne b])
  also have "\<dots> = preparse_loop uninit (last (T # map fst fs))
           (?s'\<lparr>logFile := (logFile ?s')\<lparr>fpos := fpos (logFile ?s') + length (encode_frames fs)\<rparr>,
              timestampBuffer := timestampBuffer ?s' @ map fst fs,
              timestampPos := timestampPos ?s' @ frame_offsets (fpos (logFile ?s')) fs,
              messages := messages ?s' @ order_messages (timestampBuffer ?s') fs\<rparr>)"
    by (rule Cons.IH [OF o' d' wf(2)])
  finally show ?case
    by (simp add: f add.assoc)
qed


section \<open>Resynchronisation\<close>

lemma second_read:
  "take 8 (drop (p + min (length d - p) 4) d) = take 8 (drop (p + 4) d)"
  by (cases "p + 4 \<le> length d") auto

text \<open>
  A turn whose size field fails the sync check drops the candidate offset, reports the
  failure and leaves the cursor one byte behind the candidate.
\<close>

lemma preparse_body_resync_eq:
  assumes "is_open (logFile s)"
    and "dataSize_at uninit (content (logFile s)) (fpos (logFile s)) AND 0xFFFFFFFFFFFF0000 \<noteq> 0"
  shows "preparse_body uninit l s =
           (read_into 4 l (take 4 (drop (fpos (logFile s)) (content (logFile s)))),
            s\<lparr>logFile := (logFile s)\<lparr>fpos := fpos (logFile s) + 1\<rparr>,
              messages := messages s @
                [WrongSyncByte
                   (fpos (logFile s) + min (length (content (logFile s)) - fpos (logFile s)) 4
                    + min (length (content (logFile s)) - (fpos (logFile s) + 4)) 8)
                   (dataSize_at uninit (content (logFile s)) (fpos (logFile s))
                    AND 0xFFFFFFFFFFFF0000)]\<rparr>)"
  using assms
  by (simp add: preparse_body_def qread_def Let_def seek_def second_read dataSize_at_def)

lemma preparse_body_resync:
  assumes "is_open (logFile s)"
    and "dataSize_at uninit (content (logFile s)) (fpos (logFile s)) AND 0xFFFFFFFFFFFF0000 \<noteq> 0"
  shows "\<exists>l' a b. preparse_body uninit l s =
           (l', s\<lparr>logFile := (logFile s)\<lparr>fpos := fpos (logFile s) + 1\<rparr>,
                  messages := messages s @ [WrongSyncByte a b]\<rparr>)"
  by (intro exI) (rule preparse_body_resync_eq [OF assms])

lemma preparse_loop_resync_span:
  assumes "is_open (logFile s)"
    and "span_fails uninit (content (logFile s)) (fpos (logFile s)) k"
    and "k \<le> length (content (logFile s)) - fpos (logFile s)"
  shows "\<exists>l' ms. preparse_loop uninit l s =
           preparse_loop uninit l'
             (s\<lparr>logFile := (logFile s)\<lparr>fpos := fpos (logFile s) + k\<rparr>,
                messages := messages s @ ms\<rparr>)
         \<and> length ms = k \<and> (\<forall>m \<in> set ms. \<exists>a b. m = WrongSyncByte a b)"
  using assms
proof (induction k arbitrary: s l)
  case 0
  have "preparse_loop uninit l s =
        preparse_loop uninit l
          (s\<lparr>logFile := (logFile s)\<lparr>fpos := fpos (logFile s) + 0\<rparr>, messages := messages s @ []\<rparr>)"
    by simp
  then show ?case by (intro exI [of _ l] exI [of _ "[]"]) simp
next
  case (Suc k)
  let ?p = "fpos (logFile s)"
  from Suc.prems(2) have f: "dataSize_at uninit (content (logFile s)) ?p AND 0xFFFFFFFFFFFF0000 \<noteq> 0"
    and sp: "span_fails uninit (content (logFile s)) (Suc ?p) k"
    by simp_all
  from preparse_body_resync [OF Suc.prems(1) f, of l]
  obtain l1 a b where b: "preparse_body uninit l s =
      (l1, s\<lparr>logFile := (logFile s)\<lparr>fpos := ?p + 1\<rparr>, messages := messages s @ [WrongSyncByte a b]\<rparr>)"
    by blast
  let ?s1 = "s\<lparr>logFile := (logFile s)\<lparr>fpos := ?p + 1\<rparr>, messages := messages s @ [WrongSyncByte a b]\<rparr>"
  from Suc.prems(1,3) have ne: "\<not> atEnd (logFile s)" by (simp add: atEnd_def)
  have o1: "is_open (logFile ?s1)" using Suc.prems(1) by simp
  have sp1: "span_fails uninit (content (logFile ?s1)) (fpos (logFile ?s1)) k" using sp by simp
  have le1: "k \<le> length (content (logFile ?s1)) - fpos (logFile ?s1)" using Suc.prems(3) by simp
  from Suc.IH [OF o1 sp1 le1, of l1]
  obtain l' ms where r: "preparse_loop uninit l1 ?s1 =
           preparse_loop uninit l'
             (?s1\<lparr>logFile := (logFile ?s1)\<lparr>fpos := fpos (logFile ?s1) + k\<rparr>,
                messages := messages ?s1 @ ms\<rparr>)"
    and len: "length ms = k" and all: "\<forall>m \<in> set ms. \<exists>a b. m = WrongSyncByte a b"
    by blast
  have "preparse_loop uninit l s = preparse_loop uninit l1 ?s1"
    by (rule preparse_loop_step [OF ne b])
  also note r
  finally have "preparse_loop uninit l s =
           preparse_loop uninit l'
             (s\<lparr>logFile := (logFile s)\<lparr>fpos := ?p + Suc k\<rparr>,
                messages := messages s @ (WrongSyncByte a b # ms)\<rparr>)"
    by simp
  moreover have "length (WrongSyncByte a b # ms) = Suc k" using len by simp
  moreover have "\<forall>m \<in> set (WrongSyncByte a b # ms). \<exists>a b. m = WrongSyncByte a b"
    using all by auto
  ultimately show ?case by blast
qed

section \<open>What the index pass leaves alone\<close>

lemma preparse_body_keeps:
  assumes "preparse_body uninit l s = (l', s')"
  shows "content (logFile s') = content (logFile s)"
    and "is_open (logFile s') = is_open (logFile s)"
    and "timeStamp s' = timeStamp s"
    and "kmlTalk s' = kmlTalk s"
  using assms
  by (auto simp: preparse_body_def qread_def seek_def Let_def split: if_splits prod.splits)

lemma preparse_loop_keeps:
  "content (logFile (preparse_loop uninit l s)) = content (logFile s)
   \<and> is_open (logFile (preparse_loop uninit l s)) = is_open (logFile s)
   \<and> timeStamp (preparse_loop uninit l s) = timeStamp s
   \<and> kmlTalk (preparse_loop uninit l s) = kmlTalk s"
proof (induction uninit l s rule: preparse_loop.induct)
  case (1 uninit l s)
  show ?case
  proof (cases "atEnd (logFile s)")
    case True
    then show ?thesis by (simp add: preparse_loop_atEnd)
  next
    case False
    obtain l' s' where b: "preparse_body uninit l s = (l', s')"
      by (cases "preparse_body uninit l s")
    from "1.IH" [OF False b [symmetric]] preparse_body_keeps [OF b]
      preparse_loop_step [OF False b]
    show ?thesis by simp
  qed
qed

text \<open>The loop only stops at the end of the file.\<close>

lemma preparse_loop_ends: "atEnd (logFile (preparse_loop uninit l s))"
proof (induction uninit l s rule: preparse_loop.induct)
  case (1 uninit l s)
  show ?case
  proof (cases "atEnd (logFile s)")
    case True
    then show ?thesis by (simp add: preparse_loop_atEnd)
  next
    case False
    obtain l' s' where b: "preparse_body uninit l s = (l', s')"
      by (cases "preparse_body uninit l s")
    from "1.IH" [OF False b [symmetric]] preparse_loop_step [OF False b]
    show ?thesis by simp
  qed
qed

text \<open>The loop only ever adds to the index and to the messages.\<close>

lemma preparse_body_extends:
  assumes "preparse_body uninit l s = (l', s')"
  shows "\<exists>tb tp ms. timestampBuffer s' = timestampBuffer s @ tb
           \<and> timestampPos s' = timestampPos s @ tp \<and> messages s' = messages s @ ms"
  using assms
  by (auto simp: preparse_body_def Let_def split: if_splits prod.splits)

lemma preparse_loop_extends:
  "\<exists>tb tp ms. timestampBuffer (preparse_loop uninit l s) = timestampBuffer s @ tb
     \<and> timestampPos (preparse_loop uninit l s) = timestampPos s @ tp
     \<and> messages (preparse_loop uninit l s) = messages s @ ms"
proof (induction uninit l s rule: preparse_loop.induct)
  case (1 uninit l s)
  show ?case
  proof (cases "atEnd (logFile s)")
    case True
    then show ?thesis by (simp add: preparse_loop_atEnd)
  next
    case False
    obtain l' s' where b: "preparse_body uninit l s = (l', s')"
      by (cases "preparse_body uninit l s")
    from "1.IH" [OF False b [symmetric]]
    obtain tb tp ms where
      "timestampBuffer (preparse_loop uninit l' s') = timestampBuffer s' @ tb"
      "timestampPos (preparse_loop uninit l' s') = timestampPos s' @ tp"
      "messages (preparse_loop uninit l' s') = messages s' @ ms"
      by blast
    moreover from preparse_body_extends [OF b]
    obtain tb' tp' ms' where
      "timestampBuffer s' = timestampBuffer s @ tb'"
      "timestampPos s' = timestampPos s @ tp'"
      "messages s' = messages s @ ms'"
      by blast
    ultimately show ?thesis
      using preparse_loop_step [OF False b] by simp
  qed
qed


section \<open>The index of a well-formed log\<close>

lemma length_frame_offsets [simp]: "length (frame_offsets p fs) = length fs"
  by (induction p fs rule: frame_offsets.induct) auto

lemma frame_offsets_ge: "x \<in> set (frame_offsets p fs) \<Longrightarrow> p \<le> x"
  by (induction p fs rule: frame_offsets.induct) auto

lemma frame_offsets_increasing: "sorted_wrt (<) (frame_offsets p fs)"
proof (induction p fs rule: frame_offsets.induct)
  case (1 p)
  show ?case by simp
next
  case (2 p T P fs)
  have "p < x" if "x \<in> set (frame_offsets (p + 12 + length P) fs)" for x
    using frame_offsets_ge [OF that] by simp
  with 2 show ?case by simp
qed

lemma frame_offsets_nth:
  "Suc i < length fs \<Longrightarrow>
   frame_offsets p fs ! Suc i = frame_offsets p fs ! i + 12 + length (snd (fs ! i))"
proof (induction p fs arbitrary: i rule: frame_offsets.induct)
  case (1 p)
  then show ?case by simp
next
  case (2 p T P fs)
  show ?case
  proof (cases i)
    case 0
    with "2.prems" obtain T' P' fs' where "fs = (T', P') # fs'"
      by (cases fs) auto
    with 0 show ?thesis by simp
  next
    case (Suc j)
    with "2.prems" have "Suc j < length fs" by simp
    from "2.IH" [OF this] Suc show ?thesis by simp
  qed
qed

lemma preparse_loop_frames_end:
  assumes "is_open (logFile s)"
    and "drop (fpos (logFile s)) (content (logFile s)) = encode_frames fs"
    and "well_formed fs"
  shows "preparse_loop uninit l s =
           s\<lparr>logFile := (logFile s)\<lparr>fpos := fpos (logFile s) + length (encode_frames fs)\<rparr>,
              timestampBuffer := timestampBuffer s @ map fst fs,
              timestampPos := timestampPos s @ frame_offsets (fpos (logFile s)) fs,
              messages := messages s @ order_messages (timestampBuffer s) fs\<rparr>"
proof -
  have "length (content (logFile s)) - fpos (logFile s) = length (encode_frames fs)"
    using arg_cong [OF assms(2), of length] by simp
  then have e: "length (content (logFile s)) \<le> fpos (logFile s) + length (encode_frames fs)"
    by simp
  have d: "drop (fpos (logFile s)) (content (logFile s)) = encode_frames fs @ []"
    using assms(2) by simp
  show ?thesis
    unfolding preparse_loop_frames [OF assms(1) d assms(3)]
    by (rule preparse_loop_atEnd) (simp add: atEnd_def e)
qed

text \<open>The whole index pass on a log that from the cursor on consists of well-formed frames.\<close>

lemma preparseLogFile_frames:
  assumes "is_open (logFile s)"
    and "drop (fpos (logFile s)) (content (logFile s)) = encode_frames fs"
    and "well_formed fs"
  shows "preparseLogFile uninit s =
          (if fs = []
           then (False, stopExport (s\<lparr>timestampBuffer := [], timestampPos := [],
                                     messages := messages s @ [EmptyLogfile]\<rparr>))
           else (True, s\<lparr>timestampBuffer := map fst fs,
                          timestampPos := frame_offsets (fpos (logFile s)) fs,
                          messages := messages s @ order_messages [] fs\<rparr>))"
proof -
  let ?s0 = "s\<lparr>timestampBuffer := [], timestampPos := []\<rparr>"
  have l: "preparse_loop uninit 0 ?s0 =
           ?s0\<lparr>logFile := (logFile ?s0)\<lparr>fpos := fpos (logFile ?s0) + length (encode_frames fs)\<rparr>,
              timestampBuffer := timestampBuffer ?s0 @ map fst fs,
              timestampPos := timestampPos ?s0 @ frame_offsets (fpos (logFile ?s0)) fs,
              messages := messages ?s0 @ order_messages (timestampBuffer ?s0) fs\<rparr>"
    using assms by (intro preparse_loop_frames_end) simp_all
  show ?thesis
    using assms(1)
    by (simp add: preparseLogFile_def l Let_def seek_def stopExport_def)
qed

text \<open>
  C3. On a log that consists of N well-formed frames (every payload length fits the low
  16 bits, so the high 48 bits of the size field are zero, and every payload is there in
  full), the index pass records exactly N offsets and N timestamps, one per frame and in
  the order of the file; the offsets increase strictly, and each is the offset before it
  plus the 12 bytes of the header plus the length of the payload before it.
\<close>

theorem index_completeness:
  assumes "is_open (logFile s)"
    and "drop (fpos (logFile s)) (content (logFile s)) = encode_frames fs"
    and "well_formed fs"
  shows "timestampPos (snd (preparseLogFile uninit s)) = frame_offsets (fpos (logFile s)) fs
       \<and> timestampBuffer (snd (preparseLogFile uninit s)) = map fst fs
       \<and> length (timestampPos (snd (preparseLogFile uninit s))) = length fs
       \<and> sorted_wrt (<) (timestampPos (snd (preparseLogFile uninit s)))
       \<and> (\<forall>i. Suc i < length fs \<longrightarrow>
             timestampPos (snd (preparseLogFile uninit s)) ! Suc i
             = timestampPos (snd (preparseLogFile uninit s)) ! i + 12 + length (snd (fs ! i)))"
proof -
  have p: "timestampPos (snd (preparseLogFile uninit s)) = frame_offsets (fpos (logFile s)) fs"
    by (simp add: preparseLogFile_frames [OF assms] stopExport_def)
  have b: "timestampBuffer (snd (preparseLogFile uninit s)) = map fst fs"
    by (simp add: preparseLogFile_frames [OF assms] stopExport_def)
  show ?thesis
    unfolding p b
    by (simp add: frame_offsets_increasing frame_offsets_nth)
qed

theorem index_completeness_witness:
  "is_open (logFile (log_at three_frames 0))
   \<and> drop (fpos (logFile (log_at three_frames 0))) (content (logFile (log_at three_frames 0)))
       = encode_frames [(5, [1, 2, 3]), (3, []), (7, [9])]
   \<and> well_formed [(5, [1, 2, 3]), (3, []), (7, [9])]
   \<and> timestampPos (snd (preparseLogFile (\<lambda>p. 0) (log_at three_frames 0))) = [0, 15, 27]
   \<and> timestampBuffer (snd (preparseLogFile (\<lambda>p. 0) (log_at three_frames 0))) = [5, 3, 7]"
proof -
  have h1: "is_open (logFile (log_at three_frames 0))"
    by (simp add: log_at_def)
  have h2: "drop (fpos (logFile (log_at three_frames 0))) (content (logFile (log_at three_frames 0)))
       = encode_frames [(5, [1, 2, 3]), (3, []), (7, [9])]"
    by (simp add: log_at_def three_frames_def)
  have h3: "well_formed [(5, [1, 2, 3]), (3, []), (7, [9])]"
    by simp
  from index_completeness [OF h1 h2 h3, of "\<lambda>p. 0"] h1 h2 h3
  show ?thesis by (simp add: log_at_def)
qed


section \<open>Timestamps that go backwards\<close>

text \<open>A turn on a header that passes the sync check, whether or not its payload is there.\<close>

lemma preparse_body_header:
  assumes "is_open (logFile s)"
    and "drop (fpos (logFile s)) (content (logFile s)) = le_bytes 4 (unat T) @ le_bytes 8 n @ r"
    and "n < 65536"
  shows "preparse_body uninit l s =
         (T, s\<lparr>logFile := (logFile s)\<lparr>fpos := fpos (logFile s) + 12 + n\<rparr>,
               timestampBuffer := timestampBuffer s @ [T],
               timestampPos := timestampPos s @ [fpos (logFile s)],
               messages := messages s @
                 (if timestampBuffer s \<noteq> [] \<and> T < last (timestampBuffer s)
                  then [TimestampsNotSequential (last (timestampBuffer s)) T] else [])\<rparr>)"
proof -
  note h = read_header(1,2) [OF assms(1,2)]
  have n: "n < 2 ^ 64" using assms(3) by simp
  show ?thesis
    using assms(1,3)
    by (simp add: preparse_body_def h read_into_timestamp read_into_size [OF n]
        sync_check_size unat_size [OF n] seek_def)
qed

lemma not_atEnd_header:
  assumes "is_open f" and "drop (fpos f) (content f) = le_bytes 4 a @ r"
  shows "\<not> atEnd f"
proof
  assume "atEnd f"
  with assms(1) have "drop (fpos f) (content f) = []" by (simp add: atEnd_def)
  with assms(2) have "length (le_bytes 4 a @ r) = 0" by simp
  then show False by simp
qed

text \<open>
  C7. When the index pass finds a header that passes the sync check and whose timestamp
  is below the timestamp indexed just before, it reports that the timestamps are not
  sequential, appends the frame to the index all the same, goes on behind the frame, and
  runs until the end of the file: everything indexed and reported up to and including
  this frame is kept in the final result.
\<close>

theorem out_of_order_timestamp_continues:
  assumes "is_open (logFile s)"
    and "drop (fpos (logFile s)) (content (logFile s)) = le_bytes 4 (unat T) @ le_bytes 8 n @ r"
    and "n < 65536"
    and "timestampBuffer s \<noteq> []"
    and "T < last (timestampBuffer s)"
  shows "preparse_loop uninit l s =
           preparse_loop uninit T
             (s\<lparr>logFile := (logFile s)\<lparr>fpos := fpos (logFile s) + 12 + n\<rparr>,
                timestampBuffer := timestampBuffer s @ [T],
                timestampPos := timestampPos s @ [fpos (logFile s)],
                messages := messages s @ [TimestampsNotSequential (last (timestampBuffer s)) T]\<rparr>)
       \<and> (\<exists>tb tp ms.
             timestampBuffer (preparse_loop uninit l s) = timestampBuffer s @ T # tb
           \<and> timestampPos (preparse_loop uninit l s) = timestampPos s @ fpos (logFile s) # tp
           \<and> messages (preparse_loop uninit l s)
               = messages s @ TimestampsNotSequential (last (timestampBuffer s)) T # ms)
       \<and> atEnd (logFile (preparse_loop uninit l s))"
proof -
  let ?s' = "s\<lparr>logFile := (logFile s)\<lparr>fpos := fpos (logFile s) + 12 + n\<rparr>,
                timestampBuffer := timestampBuffer s @ [T],
                timestampPos := timestampPos s @ [fpos (logFile s)],
                messages := messages s @ [TimestampsNotSequential (last (timestampBuffer s)) T]\<rparr>"
  have b: "preparse_body uninit l s = (T, ?s')"
    using preparse_body_header [OF assms(1-3), of uninit l] assms(4,5) by simp
  have ne: "\<not> atEnd (logFile s)"
    by (rule not_atEnd_header [OF assms(1,2)])
  have step: "preparse_loop uninit l s = preparse_loop uninit T ?s'"
    by (rule preparse_loop_step [OF ne b])
  from preparse_loop_extends [of uninit T ?s']
  obtain tb tp ms where
    "timestampBuffer (preparse_loop uninit T ?s') = timestampBuffer ?s' @ tb"
    "timestampPos (preparse_loop uninit T ?s') = timestampPos ?s' @ tp"
    "messages (preparse_loop uninit T ?s') = messages ?s' @ ms"
    by blast
  then have "timestampBuffer (preparse_loop uninit l s) = timestampBuffer s @ T # tb
           \<and> timestampPos (preparse_loop uninit l s) = timestampPos s @ fpos (logFile s) # tp
           \<and> messages (preparse_loop uninit l s)
               = messages s @ TimestampsNotSequential (last (timestampBuffer s)) T # ms"
    by (simp add: step)
  then have ex: "\<exists>tb tp ms.
             timestampBuffer (preparse_loop uninit l s) = timestampBuffer s @ T # tb
           \<and> timestampPos (preparse_loop uninit l s) = timestampPos s @ fpos (logFile s) # tp
           \<and> messages (preparse_loop uninit l s)
               = messages s @ TimestampsNotSequential (last (timestampBuffer s)) T # ms"
    by blast
  from step ex preparse_loop_ends [of uninit l s] show ?thesis by blast
qed

theorem out_of_order_timestamp_continues_witness:
  "is_open (logFile after_first_frame)
   \<and> drop (fpos (logFile after_first_frame)) (content (logFile after_first_frame))
       = le_bytes 4 (unat (3 :: 32 word)) @ le_bytes 8 0 @ encode_frame 7 [9]
   \<and> (0 :: nat) < 65536
   \<and> timestampBuffer after_first_frame \<noteq> []
   \<and> (3 :: 32 word) < last (timestampBuffer after_first_frame)
   \<and> (\<exists>tb tp ms.
         timestampBuffer (preparse_loop zeroed 5 after_first_frame) = [5] @ 3 # tb
       \<and> timestampPos (preparse_loop zeroed 5 after_first_frame) = [0] @ 15 # tp
       \<and> messages (preparse_loop zeroed 5 after_first_frame)
           = [] @ TimestampsNotSequential 5 3 # ms)
   \<and> atEnd (logFile (preparse_loop zeroed 5 after_first_frame))
   \<and> timestampBuffer (snd (preparseLogFile zeroed (log_at three_frames 0))) = [5, 3, 7]
   \<and> messages (snd (preparseLogFile zeroed (log_at three_frames 0))) = [TimestampsNotSequential 5 3]"
proof -
  have h1: "is_open (logFile after_first_frame)"
    by (simp add: after_first_frame_def log_at_def)
  have h2: "drop (fpos (logFile after_first_frame)) (content (logFile after_first_frame))
       = le_bytes 4 (unat (3 :: 32 word)) @ le_bytes 8 0 @ encode_frame 7 [9]"
    by code_simp
  have h3: "(0 :: nat) < 65536" by simp
  have h4: "timestampBuffer after_first_frame \<noteq> []"
    by (simp add: after_first_frame_def)
  have h5: "(3 :: 32 word) < last (timestampBuffer after_first_frame)"
    by (simp add: after_first_frame_def)
  have v: "timestampBuffer after_first_frame = [5]" "timestampPos after_first_frame = [0]"
    "messages after_first_frame = []" "fpos (logFile after_first_frame) = 15"
    by (simp_all add: after_first_frame_def log_at_def)
  have e1: "timestampBuffer (snd (preparseLogFile zeroed (log_at three_frames 0))) = [5, 3, 7]"
    by code_simp
  have e2: "messages (snd (preparseLogFile zeroed (log_at three_frames 0)))
            = [TimestampsNotSequential 5 3]"
    by code_simp
  from out_of_order_timestamp_continues [OF h1 h2 h3 h4 h5, of zeroed 5, THEN conjunct2]
  have "(\<exists>tb tp ms.
         timestampBuffer (preparse_loop zeroed 5 after_first_frame) = [5] @ 3 # tb
       \<and> timestampPos (preparse_loop zeroed 5 after_first_frame) = [0] @ 15 # tp
       \<and> messages (preparse_loop zeroed 5 after_first_frame)
           = [] @ TimestampsNotSequential 5 3 # ms)
   \<and> atEnd (logFile (preparse_loop zeroed 5 after_first_frame))"
    unfolding v by simp
  with h1 h2 h3 h4 h5 e1 e2 show ?thesis by blast
qed

section \<open>The cursor after the index pass\<close>

text \<open>
  C8. Whenever the index pass returns true, the log file is as it was when the pass
  began: the cursor is back at the position it started from, however many frames were
  indexed and however many candidates were dropped, the file is still open and its bytes
  are the same; the timestamp member and the decoder are untouched. What the pass leaves
  behind is the index and the messages it reported.
\<close>

theorem cursor_restored:
  assumes "fst (preparseLogFile uninit s)"
  shows "logFile (snd (preparseLogFile uninit s)) = logFile s
       \<and> fpos (logFile (snd (preparseLogFile uninit s))) = fpos (logFile s)
       \<and> timeStamp (snd (preparseLogFile uninit s)) = timeStamp s
       \<and> kmlTalk (snd (preparseLogFile uninit s)) = kmlTalk s"
proof -
  let ?s0 = "s\<lparr>timestampBuffer := [], timestampPos := []\<rparr>"
  let ?s1 = "preparse_loop uninit 0 ?s0"
  from assms have ne: "timestampBuffer ?s1 \<noteq> []"
    by (auto simp: preparseLogFile_def Let_def split: if_splits)
  have "is_open (logFile s)"
  proof (rule ccontr)
    assume "\<not> is_open (logFile s)"
    then have "atEnd (logFile ?s0)" by (simp add: atEnd_def)
    then have "?s1 = ?s0" by (rule preparse_loop_atEnd)
    with ne show False by simp
  qed
  with preparse_loop_keeps [of uninit 0 ?s0]
  have k: "content (logFile ?s1) = content (logFile s)" "is_open (logFile ?s1)"
    "timeStamp ?s1 = timeStamp s" "kmlTalk ?s1 = kmlTalk s"
    by simp_all
  have r: "snd (preparseLogFile uninit s) = ?s1\<lparr>logFile := seek (logFile ?s1) (fpos (logFile s))\<rparr>"
    using ne by (simp add: preparseLogFile_def Let_def)
  have "seek (logFile ?s1) (fpos (logFile s)) = logFile s"
    using k(1,2) \<open>is_open (logFile s)\<close> by (intro qfile.equality) (simp_all add: seek_def)
  with r k(3,4) show ?thesis by simp
qed

theorem cursor_restored_witness:
  "fst (preparseLogFile zeroed (log_at flipped_bit_log 0))
   \<and> logFile (snd (preparseLogFile zeroed (log_at flipped_bit_log 0)))
       = logFile (log_at flipped_bit_log 0)
   \<and> fpos (logFile (snd (preparseLogFile zeroed (log_at flipped_bit_log 0)))) = 0"
proof -
  have h: "fst (preparseLogFile zeroed (log_at flipped_bit_log 0))"
    by code_simp
  from cursor_restored [OF h] h show ?thesis
    by (simp add: log_at_def)
qed


section \<open>Logs without a frame\<close>

lemma preparse_loop_all_fail:
  assumes "span_fails uninit (content (logFile s)) (fpos (logFile s))
             (length (content (logFile s)) - fpos (logFile s))"
  shows "\<exists>ms. timestampBuffer (preparse_loop uninit l s) = timestampBuffer s
            \<and> timestampPos (preparse_loop uninit l s) = timestampPos s
            \<and> messages (preparse_loop uninit l s) = messages s @ ms
            \<and> (\<forall>m \<in> set ms. \<exists>a b. m = WrongSyncByte a b)"
proof (cases "is_open (logFile s)")
  case False
  then have "preparse_loop uninit l s = s"
    by (intro preparse_loop_atEnd) (simp add: atEnd_def)
  then show ?thesis by simp
next
  case True
  let ?k = "length (content (logFile s)) - fpos (logFile s)"
  let ?s' = "\<lambda>ms. s\<lparr>logFile := (logFile s)\<lparr>fpos := fpos (logFile s) + ?k\<rparr>,
                     messages := messages s @ ms\<rparr>"
  from preparse_loop_resync_span [OF True assms order_refl, of l]
  obtain l' ms where r: "preparse_loop uninit l s = preparse_loop uninit l' (?s' ms)"
    and all: "\<forall>m \<in> set ms. \<exists>a b. m = WrongSyncByte a b"
    by blast
  have "atEnd (logFile (?s' ms))" by (auto simp: atEnd_def)
  then have "preparse_loop uninit l' (?s' ms) = ?s' ms" by (rule preparse_loop_atEnd)
  with r have "preparse_loop uninit l s = ?s' ms" by simp
  with all show ?thesis by auto
qed

text \<open>
  C5, as the code has it. When the index pass validates no frame, that is when every
  candidate offset from the cursor to the end of the file fails the sync check (the empty
  log is the case with no candidate at all), it reports an empty log, closes the file
  and returns false with an empty index.
\<close>

theorem empty_log_rejected:
  assumes "span_fails uninit (content (logFile s)) (fpos (logFile s))
             (length (content (logFile s)) - fpos (logFile s))"
  shows "\<not> fst (preparseLogFile uninit s)
       \<and> timestampBuffer (snd (preparseLogFile uninit s)) = []
       \<and> timestampPos (snd (preparseLogFile uninit s)) = []
       \<and> \<not> is_open (logFile (snd (preparseLogFile uninit s)))
       \<and> (\<exists>ms. messages (snd (preparseLogFile uninit s)) = messages s @ ms @ [EmptyLogfile])"
proof -
  let ?s0 = "s\<lparr>timestampBuffer := [], timestampPos := []\<rparr>"
  have "span_fails uninit (content (logFile ?s0)) (fpos (logFile ?s0))
             (length (content (logFile ?s0)) - fpos (logFile ?s0))"
    using assms by simp
  from preparse_loop_all_fail [OF this, of 0]
  obtain ms where "timestampBuffer (preparse_loop uninit 0 ?s0) = []"
    "timestampPos (preparse_loop uninit 0 ?s0) = []"
    "messages (preparse_loop uninit 0 ?s0) = messages s @ ms"
    by auto
  then show ?thesis
    by (simp add: preparseLogFile_def Let_def stopExport_def close_def)
qed

theorem empty_log_rejected_witness:
  "span_fails all_ones (content (logFile (log_at [1, 2, 3, 4, 5] 0)))
     (fpos (logFile (log_at [1, 2, 3, 4, 5] 0)))
     (length (content (logFile (log_at [1, 2, 3, 4, 5] 0))) - fpos (logFile (log_at [1, 2, 3, 4, 5] 0)))
   \<and> \<not> fst (preparseLogFile all_ones (log_at [1, 2, 3, 4, 5] 0))
   \<and> \<not> is_open (logFile (snd (preparseLogFile all_ones (log_at [1, 2, 3, 4, 5] 0))))
   \<and> span_fails zeroed (content (logFile (log_at [] 0))) (fpos (logFile (log_at [] 0)))
     (length (content (logFile (log_at [] 0))) - fpos (logFile (log_at [] 0)))
   \<and> \<not> fst (preparseLogFile zeroed (log_at [] 0))
   \<and> \<not> is_open (logFile (snd (preparseLogFile zeroed (log_at [] 0))))"
proof -
  have h1: "span_fails all_ones (content (logFile (log_at [1, 2, 3, 4, 5] 0)))
     (fpos (logFile (log_at [1, 2, 3, 4, 5] 0)))
     (length (content (logFile (log_at [1, 2, 3, 4, 5] 0))) - fpos (logFile (log_at [1, 2, 3, 4, 5] 0)))"
    by code_simp
  have h2: "span_fails zeroed (content (logFile (log_at [] 0))) (fpos (logFile (log_at [] 0)))
     (length (content (logFile (log_at [] 0))) - fpos (logFile (log_at [] 0)))"
    by code_simp
  from empty_log_rejected [OF h1] empty_log_rejected [OF h2] h1 h2
  show ?thesis by blast
qed

text \<open>
  The claim C5 counts a log that is shorter than one complete frame among the logs
  without a frame. A log that holds a header and nothing of the payload the header
  announces is shorter than its one frame, and yet the index pass validates the header,
  indexes it and returns true.
\<close>

theorem header_only_log_counterexample:
  "length header_only_log < 12 + 5
   \<and> drop 0 header_only_log = le_bytes 4 (unat (7 :: 32 word)) @ le_bytes 8 5 @ []
   \<and> fst (preparseLogFile zeroed (log_at header_only_log 0))
   \<and> timestampPos (snd (preparseLogFile zeroed (log_at header_only_log 0))) = [0]
   \<and> timestampBuffer (snd (preparseLogFile zeroed (log_at header_only_log 0))) = [7]
   \<and> fst (preparseLogFile all_ones (log_at header_only_log 0))"
  by code_simp


section \<open>Resynchronisation after a corrupted header\<close>

text \<open>
  The claim C2 says that after one corrupted header the index holds all valid frames
  before and after it. In \<open>flipped_bit_log\<close> one bit of the second header is flipped.
  The header at offset 14 fails the sync check, and the frames at the offsets 28 and 42
  are well-formed; but the pass goes on byte by byte only up to offset 27, one byte
  before the third frame, where the last payload byte, the timestamp 3 and the size 2
  read as timestamp 800 and size 512. That candidate passes the sync check, is indexed,
  and the seek behind it leaves the file: neither of the two frames after the corrupted
  one is in the index.
\<close>

theorem resync_counterexample:
  "drop 0 flipped_bit_log = encode_frames [(1, [0x3C, 0x20])] @ drop 14 flipped_bit_log
   \<and> dataSize_at zeroed flipped_bit_log 14 AND 0xFFFFFFFFFFFF0000 \<noteq> 0
   \<and> drop 28 flipped_bit_log = encode_frames [(3, [0x3C, 0x20]), (4, [0x3C, 0x20])]
   \<and> fst (preparseLogFile zeroed (log_at flipped_bit_log 0))
   \<and> timestampPos (snd (preparseLogFile zeroed (log_at flipped_bit_log 0))) = [0, 27]
   \<and> timestampBuffer (snd (preparseLogFile zeroed (log_at flipped_bit_log 0))) = [1, 800]
   \<and> 28 \<notin> set (timestampPos (snd (preparseLogFile zeroed (log_at flipped_bit_log 0))))
   \<and> 42 \<notin> set (timestampPos (snd (preparseLogFile zeroed (log_at flipped_bit_log 0))))"
  by code_simp

lemma length_drop_eq:
  assumes "drop p c = a @ b @ r"
  shows "length b \<le> length c - (p + length a)"
proof -
  have "length (drop p c) = length (a @ b @ r)"
    by (simp only: assms)
  then show ?thesis by simp
qed

text \<open>
  C2, as the code has it. A candidate whose size field fails the sync check is dropped
  from the index and the pass goes on one byte further. When the log, from the cursor
  on, consists of well-formed frames, then a span of bytes that begins with the corrupted
  header and in which every offset fails the sync check, and then well-formed frames
  again, the pass makes exactly one retry for each byte of the span, and the index
  consists of the frames before the span and the frames after it, in the order of the
  file, with no entry inside the span.
\<close>

theorem resync_skips_failing_span:
  assumes "is_open (logFile s)"
    and "drop (fpos (logFile s)) (content (logFile s))
         = encode_frames fs1 @ bad @ encode_frames fs2"
    and "well_formed fs1" and "well_formed fs2"
    and "span_fails uninit (content (logFile s))
           (fpos (logFile s) + length (encode_frames fs1)) (length bad)"
  shows "timestampPos (snd (preparseLogFile uninit s))
           = frame_offsets (fpos (logFile s)) fs1
             @ frame_offsets (fpos (logFile s) + length (encode_frames fs1) + length bad) fs2
       \<and> timestampBuffer (snd (preparseLogFile uninit s)) = map fst fs1 @ map fst fs2
       \<and> (\<exists>ms. length ms = length bad \<and> (\<forall>m \<in> set ms. \<exists>a b. m = WrongSyncByte a b)
             \<and> messages (snd (preparseLogFile uninit s))
                = messages s @ order_messages [] fs1 @ ms @ order_messages (map fst fs1) fs2
                  @ (if fs1 = [] \<and> fs2 = [] then [EmptyLogfile] else []))"
proof -
  let ?p = "fpos (logFile s)"
  let ?n1 = "length (encode_frames fs1)"
  let ?s0 = "s\<lparr>timestampBuffer := [], timestampPos := []\<rparr>"
  let ?s1 = "s\<lparr>logFile := (logFile s)\<lparr>fpos := ?p + ?n1\<rparr>,
               timestampBuffer := map fst fs1,
               timestampPos := frame_offsets ?p fs1,
               messages := messages s @ order_messages [] fs1\<rparr>"
  have d0: "drop (fpos (logFile ?s0)) (content (logFile ?s0))
            = encode_frames fs1 @ (bad @ encode_frames fs2)"
    using assms(2) by simp
  have o0: "is_open (logFile ?s0)" using assms(1) by simp
  have a: "preparse_loop uninit 0 ?s0 = preparse_loop uninit (last (0 # map fst fs1)) ?s1"
    using preparse_loop_frames [OF o0 d0 assms(3), of uninit 0] by simp
  have o1: "is_open (logFile ?s1)" using assms(1) by simp
  have sp1: "span_fails uninit (content (logFile ?s1)) (fpos (logFile ?s1)) (length bad)"
    using assms(5) by simp
  have le1: "length bad \<le> length (content (logFile ?s1)) - fpos (logFile ?s1)"
    using length_drop_eq [OF assms(2)] by simp
  from preparse_loop_resync_span [OF o1 sp1 le1, of "last (0 # map fst fs1)"]
  obtain l2 ms where b: "preparse_loop uninit (last (0 # map fst fs1)) ?s1 =
           preparse_loop uninit l2
             (?s1\<lparr>logFile := (logFile ?s1)\<lparr>fpos := fpos (logFile ?s1) + length bad\<rparr>,
                messages := messages ?s1 @ ms\<rparr>)"
    and len: "length ms = length bad" and all: "\<forall>m \<in> set ms. \<exists>a b. m = WrongSyncByte a b"
    by blast
  let ?s2 = "?s1\<lparr>logFile := (logFile ?s1)\<lparr>fpos := fpos (logFile ?s1) + length bad\<rparr>,
                messages := messages ?s1 @ ms\<rparr>"
  have o2: "is_open (logFile ?s2)" using assms(1) by simp
  have "drop (?p + ?n1) (content (logFile s)) = bad @ encode_frames fs2"
    by (rule drop_past [OF assms(2)])
  from drop_past [OF this]
  have d2: "drop (fpos (logFile ?s2)) (content (logFile ?s2)) = encode_frames fs2"
    by simp
  note c = preparse_loop_frames_end [OF o2 d2 assms(4), of uninit l2]
  have r: "preparse_loop uninit 0 ?s0 =
           s\<lparr>logFile := (logFile s)\<lparr>fpos := ?p + ?n1 + length bad + length (encode_frames fs2)\<rparr>,
             timestampBuffer := map fst fs1 @ map fst fs2,
             timestampPos := frame_offsets ?p fs1 @ frame_offsets (?p + ?n1 + length bad) fs2,
             messages := messages s @ order_messages [] fs1 @ ms @ order_messages (map fst fs1) fs2\<rparr>"
    unfolding a b c by simp
  have "timestampPos (snd (preparseLogFile uninit s))
           = frame_offsets ?p fs1 @ frame_offsets (?p + ?n1 + length bad) fs2"
    and "timestampBuffer (snd (preparseLogFile uninit s)) = map fst fs1 @ map fst fs2"
    and "messages (snd (preparseLogFile uninit s))
                = messages s @ order_messages [] fs1 @ ms @ order_messages (map fst fs1) fs2
                  @ (if fs1 = [] \<and> fs2 = [] then [EmptyLogfile] else [])"
    by (simp_all add: preparseLogFile_def r Let_def stopExport_def)
  with len all show ?thesis by blast
qed

theorem resync_skips_failing_span_witness:
  "is_open (logFile (log_at resync_log 0))
   \<and> drop (fpos (logFile (log_at resync_log 0))) (content (logFile (log_at resync_log 0)))
       = encode_frames [(1, [7])] @ noise_header @ encode_frames [(0x01020304, replicate 257 9)]
   \<and> well_formed [(1, [7])]
   \<and> well_formed [(0x01020304, replicate 257 9)]
   \<and> span_fails zeroed (content (logFile (log_at resync_log 0)))
        (fpos (logFile (log_at resync_log 0)) + length (encode_frames [(1, [7])]))
        (length noise_header)
   \<and> timestampPos (snd (preparseLogFile zeroed (log_at resync_log 0))) = [0, 25]
   \<and> timestampBuffer (snd (preparseLogFile zeroed (log_at resync_log 0))) = [1, 0x01020304]"
proof -
  have h1: "is_open (logFile (log_at resync_log 0))"
    by (simp add: log_at_def)
  have h2: "drop (fpos (logFile (log_at resync_log 0))) (content (logFile (log_at resync_log 0)))
       = encode_frames [(1, [7])] @ noise_header @ encode_frames [(0x01020304, replicate 257 9)]"
    by (simp add: log_at_def resync_log_def)
  have h3: "well_formed [(1, [7])]" by simp
  have h4: "well_formed [(0x01020304, replicate 257 9)]" by simp
  have h5: "span_fails zeroed (content (logFile (log_at resync_log 0)))
        (fpos (logFile (log_at resync_log 0)) + length (encode_frames [(1, [7])]))
        (length noise_header)"
    by code_simp
  have v: "fpos (logFile (log_at resync_log 0)) = 0" "length noise_header = 12"
    by (simp_all add: log_at_def noise_header_def)
  from resync_skips_failing_span [OF h1 h2 h3 h4 h5] h1 h2 h3 h4 h5
  show ?thesis unfolding v by simp
qed


section \<open>The streaming pass on frames\<close>

lemma streamable_Cons [simp]:
  "streamable ((T, P) # fs) \<longleftrightarrow> 1 \<le> length P \<and> length P \<le> 1048576 \<and> streamable fs"
  by (simp add: streamable_def)

lemma streamable_Nil [simp]: "streamable []"
  by (simp add: streamable_def)

lemma parse_loop_atEnd: "atEnd (logFile s) \<Longrightarrow> parse_loop ps idx s = (Completed, idx, s)"
  by (simp add: parse_loop.simps)

lemma parse_loop_next:
  "\<not> atEnd (logFile s) \<Longrightarrow> parse_body ps idx s = Next ps' idx' s' \<Longrightarrow>
   parse_loop ps idx s = parse_loop ps' idx' s'"
  by (simp add: parse_loop.simps)

lemma parse_loop_break:
  "\<not> atEnd (logFile s) \<Longrightarrow> parse_body ps idx s = Break st idx' s' \<Longrightarrow>
   parse_loop ps idx s = (st, idx', s')"
  by (simp add: parse_loop.simps)

lemma bytesAvailable_drop:
  "drop (fpos f) (content f) = a @ r \<Longrightarrow> bytesAvailable f = length a + length r"
proof -
  assume "drop (fpos f) (content f) = a @ r"
  then have "length (drop (fpos f) (content f)) = length (a @ r)" by (simp only:)
  then show ?thesis by (simp add: bytesAvailable_def)
qed

text \<open>A turn on a frame whose payload is there in full and has an accepted length.\<close>

lemma parse_body_frame:
  assumes "is_open (logFile s)"
    and "drop (fpos (logFile s)) (content (logFile s)) = encode_frame T P @ r"
    and "1 \<le> length P" and "length P \<le> 1048576"
  shows "parse_body ps idx s =
           Next (of_nat (length P)) (idx + 1)
             (s\<lparr>logFile := (logFile s)\<lparr>fpos := fpos (logFile s) + 12 + length P\<rparr>,
                timeStamp := T,
                kmlTalk := kmlTalk s @ P\<rparr>)"
proof -
  let ?f = "logFile s"
  have d: "drop (fpos ?f) (content ?f) = le_bytes 4 (unat T) @ le_bytes 8 (length P) @ (P @ r)"
    using assms(2) by (simp add: encode_frame_def)
  note h = read_header [OF assms(1) d]
  have av: "bytesAvailable ?f = 12 + length P + length r"
    using bytesAvailable_drop [OF assms(2)] by simp
  have n: "length P < 2 ^ 64" "length P < 2 ^ 63" using assms(4) by simp_all
  have si: "sint (of_nat (length P) :: 64 word) = int (length P)"
    by (rule sint_size [OF n(2)])
  have pr: "qread (?f\<lparr>fpos := fpos ?f + 12\<rparr>) (length P)
            = (P, ?f\<lparr>fpos := fpos ?f + 12 + length P\<rparr>)"
    using assms(1) h(3) by (simp add: qread_def)
  have av2: "bytesAvailable (?f\<lparr>fpos := fpos ?f + 12\<rparr>) = length P + length r"
    using av by (simp add: bytesAvailable_def)
  have ne: "P \<noteq> []" using assms(3) by auto
  show ?thesis
    using ne assms(4)
    by (simp add: parse_body_def av h(1,2) read_into_timestamp read_into_size [OF n(1)]
        si av2 pr Let_def)
qed

text \<open>A turn on a header whose size field is 0 or above 1024 * 1024.\<close>

lemma parse_body_corrupt:
  assumes "is_open (logFile s)"
    and "drop (fpos (logFile s)) (content (logFile s)) = le_bytes 4 (unat T) @ le_bytes 8 n @ r"
    and "n < 2 ^ 64" and "n = 0 \<or> 1048576 < n"
  shows "parse_body ps idx s =
           Break StoppedOnCorruption idx
             (s\<lparr>logFile := (logFile s)\<lparr>fpos := fpos (logFile s) + 12\<rparr>,
                timeStamp := T,
                messages := messages s @ [IncorrectPacketSize (of_nat n)]\<rparr>)"
proof -
  let ?f = "logFile s"
  note h = read_header [OF assms(1,2)]
  have av: "bytesAvailable ?f = 4 + (8 + length r)"
    using bytesAvailable_drop [OF assms(2)] bytesAvailable_drop [of ?f "le_bytes 4 (unat T)"]
    by (simp add: assms(2))
  have bad: "sint (of_nat n :: 64 word) < 1 \<or> 1048576 < sint (of_nat n :: 64 word)"
  proof (cases "n < 2 ^ 63")
    case True
    from sint_size [OF True] assms(4) show ?thesis by auto
  next
    case False
    then have "2 ^ 63 \<le> n" by simp
    from sint_size_neg [OF this assms(3)] show ?thesis by simp
  qed
  show ?thesis
    using bad
    by (simp add: parse_body_def av h(1,2) read_into_timestamp read_into_size [OF assms(3)] Let_def)
qed

text \<open>A turn on a header that announces more payload than the file still holds.\<close>

lemma parse_body_truncated:
  assumes "is_open (logFile s)"
    and "drop (fpos (logFile s)) (content (logFile s)) = le_bytes 4 (unat T) @ le_bytes 8 n @ r"
    and "length r < n" and "n \<le> 1048576"
  shows "parse_body ps idx s =
           Break Completed idx
             (s\<lparr>logFile := (logFile s)\<lparr>fpos := fpos (logFile s) + 12\<rparr>, timeStamp := T\<rparr>)"
proof -
  let ?f = "logFile s"
  note h = read_header [OF assms(1,2)]
  have av: "bytesAvailable ?f = 4 + (8 + length r)"
    using bytesAvailable_drop [of ?f "le_bytes 4 (unat T)"]
    by (simp add: assms(2))
  have n: "n < 2 ^ 64" "n < 2 ^ 63" using assms(4) by simp_all
  have si: "sint (of_nat n :: 64 word) = int n"
    by (rule sint_size [OF n(2)])
  have av2: "bytesAvailable (?f\<lparr>fpos := fpos ?f + 12\<rparr>) = length r"
    using av by (simp add: bytesAvailable_def)
  show ?thesis
    using assms(3,4)
    by (simp add: parse_body_def av h(1,2) read_into_timestamp read_into_size [OF n(1)]
        si av2 Let_def)
qed

text \<open>
  Running the loop over a sequence of frames the streaming pass accepts: every payload
  goes to the decoder, in order, and the loop arrives behind the last frame.
\<close>

lemma parse_loop_frames:
  assumes "is_open (logFile s)"
    and "drop (fpos (logFile s)) (content (logFile s)) = encode_frames fs @ r"
    and "streamable fs"
  shows "\<exists>ps'. parse_loop ps idx s =
           parse_loop ps' (idx + of_nat (length fs))
             (s\<lparr>logFile := (logFile s)\<lparr>fpos := fpos (logFile s) + length (encode_frames fs)\<rparr>,
                timeStamp := last (timeStamp s # map fst fs),
                kmlTalk := kmlTalk s @ concat (map snd fs)\<rparr>)"
  using assms
proof (induction fs arbitrary: s ps idx)
  case Nil
  have "parse_loop ps idx s =
        parse_loop ps (idx + of_nat (length ([] :: frame list)))
          (s\<lparr>logFile := (logFile s)\<lparr>fpos := fpos (logFile s) + length (encode_frames [])\<rparr>,
             timeStamp := last (timeStamp s # map fst []),
             kmlTalk := kmlTalk s @ concat (map snd ([] :: frame list))\<rparr>)"
    by simp
  then show ?case by (rule exI)
next
  case (Cons f fs)
  obtain T P where f: "f = (T, P)" by (cases f)
  let ?p = "fpos (logFile s)"
  let ?s' = "s\<lparr>logFile := (logFile s)\<lparr>fpos := ?p + 12 + length P\<rparr>,
               timeStamp := T, kmlTalk := kmlTalk s @ P\<rparr>"
  from Cons.prems f have d: "drop ?p (content (logFile s)) = encode_frame T P @ (encode_frames fs @ r)"
    by simp
  from Cons.prems f have st: "1 \<le> length P" "length P \<le> 1048576" "streamable fs" by simp_all
  have b: "parse_body ps idx s = Next (of_nat (length P)) (idx + 1) ?s'"
    by (rule parse_body_frame [OF Cons.prems(1) d st(1,2)])
  have ne: "\<not> atEnd (logFile s)"
    by (rule not_atEnd_frame [OF Cons.prems(1) d])
  have d': "drop (fpos (logFile ?s')) (content (logFile ?s')) = encode_frames fs @ r"
    using drop_past [OF d] by (simp add: add.assoc)
  have o': "is_open (logFile ?s')" using Cons.prems(1) by simp
  from Cons.IH [OF o' d' st(3), of "of_nat (length P)" "idx + 1"]
  obtain ps' where "parse_loop (of_nat (length P)) (idx + 1) ?s' =
           parse_loop ps' (idx + 1 + of_nat (length fs))
             (?s'\<lparr>logFile := (logFile ?s')\<lparr>fpos := fpos (logFile ?s') + length (encode_frames fs)\<rparr>,
                timeStamp := last (timeStamp ?s' # map fst fs),
                kmlTalk := kmlTalk ?s' @ concat (map snd fs)\<rparr>)"
    by blast
  moreover have "idx + 1 + of_nat (length fs) = idx + of_nat (length (f # fs))"
    by simp
  moreover note parse_loop_next [OF ne b]
  ultimately have "parse_loop ps idx s =
           parse_loop ps' (idx + of_nat (length (f # fs)))
             (s\<lparr>logFile := (logFile s)\<lparr>fpos := ?p + length (encode_frames (f # fs))\<rparr>,
                timeStamp := last (timeStamp s # map fst (f # fs)),
                kmlTalk := kmlTalk s @ concat (map snd (f # fs))\<rparr>)"
    by (simp add: f add.assoc)
  then show ?case by (rule exI)
qed


section \<open>How the streaming pass ends\<close>

lemma not_atEnd_after_frames:
  assumes "is_open (logFile s)"
    and "drop (fpos (logFile s)) (content (logFile s)) = a @ le_bytes 4 t @ r"
  shows "\<not> atEnd ((logFile s)\<lparr>fpos := fpos (logFile s) + length a\<rparr>)"
proof -
  have "drop (fpos (logFile s) + length a) (content (logFile s)) = le_bytes 4 t @ r"
    by (rule drop_past [OF assms(2)])
  then show ?thesis
    using assms(1) not_atEnd_header [of "(logFile s)\<lparr>fpos := fpos (logFile s) + length a\<rparr>" t r]
    by simp
qed

lemma parse_loop_corrupt:
  assumes "is_open (logFile s)"
    and "drop (fpos (logFile s)) (content (logFile s))
         = encode_frames fs @ le_bytes 4 (unat T) @ le_bytes 8 n @ r"
    and "streamable fs"
    and "n < 2 ^ 64" and "n = 0 \<or> 1048576 < n"
  shows "parse_loop ps idx s =
          (StoppedOnCorruption, idx + of_nat (length fs),
           s\<lparr>logFile := (logFile s)\<lparr>fpos := fpos (logFile s) + length (encode_frames fs) + 12\<rparr>,
             timeStamp := T,
             kmlTalk := kmlTalk s @ concat (map snd fs),
             messages := messages s @ [IncorrectPacketSize (of_nat n)]\<rparr>)"
proof -
  let ?s1 = "s\<lparr>logFile := (logFile s)\<lparr>fpos := fpos (logFile s) + length (encode_frames fs)\<rparr>,
                timeStamp := last (timeStamp s # map fst fs),
                kmlTalk := kmlTalk s @ concat (map snd fs)\<rparr>"
  from parse_loop_frames [OF assms(1,2,3), of ps idx]
  obtain ps' where a: "parse_loop ps idx s = parse_loop ps' (idx + of_nat (length fs)) ?s1"
    by blast
  have o1: "is_open (logFile ?s1)" using assms(1) by simp
  have d1: "drop (fpos (logFile ?s1)) (content (logFile ?s1))
            = le_bytes 4 (unat T) @ le_bytes 8 n @ r"
    using drop_past [OF assms(2)] by simp
  have ne: "\<not> atEnd (logFile ?s1)"
    using not_atEnd_after_frames [OF assms(1,2)] by simp
  note b = parse_body_corrupt [OF o1 d1 assms(4,5), of ps' "idx + of_nat (length fs)"]
  show ?thesis
    unfolding a parse_loop_break [OF ne b] by simp
qed

lemma parse_loop_truncated:
  assumes "is_open (logFile s)"
    and "drop (fpos (logFile s)) (content (logFile s))
         = encode_frames fs @ le_bytes 4 (unat T) @ le_bytes 8 n @ r"
    and "streamable fs"
    and "length r < n" and "n \<le> 1048576"
  shows "parse_loop ps idx s =
          (Completed, idx + of_nat (length fs),
           s\<lparr>logFile := (logFile s)\<lparr>fpos := fpos (logFile s) + length (encode_frames fs) + 12\<rparr>,
             timeStamp := T,
             kmlTalk := kmlTalk s @ concat (map snd fs)\<rparr>)"
proof -
  let ?s1 = "s\<lparr>logFile := (logFile s)\<lparr>fpos := fpos (logFile s) + length (encode_frames fs)\<rparr>,
                timeStamp := last (timeStamp s # map fst fs),
                kmlTalk := kmlTalk s @ concat (map snd fs)\<rparr>"
  from parse_loop_frames [OF assms(1,2,3), of ps idx]
  obtain ps' where a: "parse_loop ps idx s = parse_loop ps' (idx + of_nat (length fs)) ?s1"
    by blast
  have o1: "is_open (logFile ?s1)" using assms(1) by simp
  have d1: "drop (fpos (logFile ?s1)) (content (logFile ?s1))
            = le_bytes 4 (unat T) @ le_bytes 8 n @ r"
    using drop_past [OF assms(2)] by simp
  have ne: "\<not> atEnd (logFile ?s1)"
    using not_atEnd_after_frames [OF assms(1,2)] by simp
  note b = parse_body_truncated [OF o1 d1 assms(4,5), of ps' "idx + of_nat (length fs)"]
  show ?thesis
    unfolding a parse_loop_break [OF ne b] by simp
qed

text \<open>
  C1. When the log, from the cursor on, consists of K frames the streaming pass accepts
  (frames that pass the sync check and have at least one byte of payload are among them),
  followed by a header whose size field is 0 or greater than 1024 * 1024, the pass hands
  exactly the payload bytes of the K frames to the decoder, in the order of the file, and
  nothing of what follows the bad header; it stops at the bad header with the "Incorrect
  packet size" report, having counted K frames, and what the decoder received stays as
  the result. The pass ends as \<open>StoppedOnCorruption\<close>, and the file is closed.
\<close>

theorem partial_decode_salvage:
  assumes "is_open (logFile s)"
    and "drop (fpos (logFile s)) (content (logFile s))
         = encode_frames fs @ le_bytes 4 (unat T) @ le_bytes 8 n @ r"
    and "streamable fs"
    and "n < 2 ^ 64" and "n = 0 \<or> 1048576 < n"
  shows "parseLogFile ps idx s =
          (StoppedOnCorruption, idx + of_nat (length fs),
           s\<lparr>logFile := close (logFile s),
             timeStamp := T,
             kmlTalk := kmlTalk s @ concat (map snd fs),
             messages := messages s @ [IncorrectPacketSize (of_nat n)]\<rparr>)"
  by (simp add: parseLogFile_def parse_loop_corrupt [OF assms] stopExport_def close_def)

theorem partial_decode_salvage_witness:
  "is_open (logFile (log_at zero_size_log 0))
   \<and> drop (fpos (logFile (log_at zero_size_log 0))) (content (logFile (log_at zero_size_log 0)))
       = encode_frames [(5, [1, 2, 3]), (6, [4])] @ le_bytes 4 (unat (7 :: 32 word)) @ le_bytes 8 0 @ [8, 8]
   \<and> streamable [(5, [1, 2, 3]), (6, [4])]
   \<and> (0 :: nat) < 2 ^ 64
   \<and> fst (parseLogFile 0 0 (log_at zero_size_log 0)) = StoppedOnCorruption
   \<and> fst (snd (parseLogFile 0 0 (log_at zero_size_log 0))) = 2
   \<and> kmlTalk (snd (snd (parseLogFile 0 0 (log_at zero_size_log 0)))) = [1, 2, 3, 4]
   \<and> is_open (logFile (log_at huge_size_log 0))
   \<and> drop (fpos (logFile (log_at huge_size_log 0))) (content (logFile (log_at huge_size_log 0)))
       = encode_frames [(5, [1, 2, 3]), (6, [4])] @ le_bytes 4 (unat (7 :: 32 word))
         @ le_bytes 8 1048577 @ [8, 8]
   \<and> (1048577 :: nat) < 2 ^ 64
   \<and> (1048576 :: nat) < 1048577
   \<and> fst (parseLogFile 0 0 (log_at huge_size_log 0)) = StoppedOnCorruption
   \<and> fst (snd (parseLogFile 0 0 (log_at huge_size_log 0))) = 2
   \<and> kmlTalk (snd (snd (parseLogFile 0 0 (log_at huge_size_log 0)))) = [1, 2, 3, 4]"
proof -
  have h1: "is_open (logFile (log_at zero_size_log 0))"
    by (simp add: log_at_def)
  have h2: "drop (fpos (logFile (log_at zero_size_log 0))) (content (logFile (log_at zero_size_log 0)))
       = encode_frames [(5, [1, 2, 3]), (6, [4])] @ le_bytes 4 (unat (7 :: 32 word)) @ le_bytes 8 0 @ [8, 8]"
    by (simp add: log_at_def zero_size_log_def)
  have h3: "streamable [(5, [1, 2, 3]), (6, [4])]" by simp
  have h4: "(0 :: nat) < 2 ^ 64" by simp
  have h5: "(0 :: nat) = 0 \<or> 1048576 < (0 :: nat)" by simp
  have g1: "is_open (logFile (log_at huge_size_log 0))"
    by (simp add: log_at_def)
  have g2: "drop (fpos (logFile (log_at huge_size_log 0))) (content (logFile (log_at huge_size_log 0)))
       = encode_frames [(5, [1, 2, 3]), (6, [4])] @ le_bytes 4 (unat (7 :: 32 word))
         @ le_bytes 8 1048577 @ [8, 8]"
    by (simp add: log_at_def huge_size_log_def)
  have g4: "(1048577 :: nat) < 2 ^ 64" by simp
  have g5: "(1048577 :: nat) = 0 \<or> 1048576 < (1048577 :: nat)" by simp
  have g6: "(1048576 :: nat) < 1048577" by simp
  have a: "fst (parseLogFile 0 0 (log_at zero_size_log 0)) = StoppedOnCorruption
   \<and> fst (snd (parseLogFile 0 0 (log_at zero_size_log 0))) = 2
   \<and> kmlTalk (snd (snd (parseLogFile 0 0 (log_at zero_size_log 0)))) = [1, 2, 3, 4]"
    using partial_decode_salvage [OF h1 h2 h3 h4 h5, of 0 0] by (simp add: log_at_def)
  have b: "fst (parseLogFile 0 0 (log_at huge_size_log 0)) = StoppedOnCorruption
   \<and> fst (snd (parseLogFile 0 0 (log_at huge_size_log 0))) = 2
   \<and> kmlTalk (snd (snd (parseLogFile 0 0 (log_at huge_size_log 0)))) = [1, 2, 3, 4]"
    using partial_decode_salvage [OF g1 g2 h3 g4 g5, of 0 0] by (simp add: log_at_def)
  from h1 h2 h3 h4 g1 g2 g4 g6 a b show ?thesis by blast
qed

text \<open>
  C6. When the last frame of the log announces a payload longer than the bytes that
  follow its header (the announced length being one the pass accepts, as every length
  that fits the 16 bits of a well-formed header and is not zero), the streaming pass
  stops as at the end of the file: it ends as \<open>Completed\<close>, reports nothing, and the
  payloads of all the frames before have gone to the decoder and stay there.
\<close>

theorem truncated_tail_tolerated:
  assumes "is_open (logFile s)"
    and "drop (fpos (logFile s)) (content (logFile s))
         = encode_frames fs @ le_bytes 4 (unat T) @ le_bytes 8 n @ r"
    and "streamable fs"
    and "length r < n" and "n \<le> 1048576"
  shows "parseLogFile ps idx s =
          (Completed, idx + of_nat (length fs),
           s\<lparr>logFile := close (logFile s),
             timeStamp := T,
             kmlTalk := kmlTalk s @ concat (map snd fs)\<rparr>)
       \<and> messages (snd (snd (parseLogFile ps idx s))) = messages s"
  by (simp add: parseLogFile_def parse_loop_truncated [OF assms] stopExport_def close_def)

theorem truncated_tail_tolerated_witness:
  "is_open (logFile (log_at truncated_tail_log 0))
   \<and> drop (fpos (logFile (log_at truncated_tail_log 0))) (content (logFile (log_at truncated_tail_log 0)))
       = encode_frames [(5, [1, 2, 3]), (6, [4])] @ le_bytes 4 (unat (7 :: 32 word)) @ le_bytes 8 4 @ [8, 8]
   \<and> streamable [(5, [1, 2, 3]), (6, [4])]
   \<and> length [8 :: byte, 8] < 4
   \<and> (4 :: nat) \<le> 1048576
   \<and> fst (parseLogFile 0 0 (log_at truncated_tail_log 0)) = Completed
   \<and> fst (snd (parseLogFile 0 0 (log_at truncated_tail_log 0))) = 2
   \<and> kmlTalk (snd (snd (parseLogFile 0 0 (log_at truncated_tail_log 0)))) = [1, 2, 3, 4]
   \<and> messages (snd (snd (parseLogFile 0 0 (log_at truncated_tail_log 0)))) = []"
proof -
  have h1: "is_open (logFile (log_at truncated_tail_log 0))"
    by (simp add: log_at_def)
  have h2: "drop (fpos (logFile (log_at truncated_tail_log 0))) (content (logFile (log_at truncated_tail_log 0)))
       = encode_frames [(5, [1, 2, 3]), (6, [4])] @ le_bytes 4 (unat (7 :: 32 word)) @ le_bytes 8 4 @ [8, 8]"
    by (simp add: log_at_def truncated_tail_log_def)
  have h3: "streamable [(5, [1, 2, 3]), (6, [4])]" by simp
  have h4: "length [8 :: byte, 8] < 4" by simp
  have h5: "(4 :: nat) \<le> 1048576" by simp
  have a: "fst (parseLogFile 0 0 (log_at truncated_tail_log 0)) = Completed
   \<and> fst (snd (parseLogFile 0 0 (log_at truncated_tail_log 0))) = 2
   \<and> kmlTalk (snd (snd (parseLogFile 0 0 (log_at truncated_tail_log 0)))) = [1, 2, 3, 4]
   \<and> messages (snd (snd (parseLogFile 0 0 (log_at truncated_tail_log 0)))) = []"
    using truncated_tail_tolerated [OF h1 h2 h3 h4 h5, of 0 0] by (simp add: log_at_def)
  from h1 h2 h3 h4 h5 a show ?thesis by blast
qed


section \<open>When the streaming pass reads a header\<close>

text \<open>
  The claim C4 says that the streaming pass reads a header only when the 12 bytes of a
  header are left. In \<open>truncated_header_log\<close> five bytes follow the first frame. The
  pass, at offset 13 after the first frame, with 5 bytes left, does read: the timestamp
  is overwritten with the four bytes 1, 2, 3, 4, the cursor moves to the end of the
  file, and the one byte left for the size field, over what the variable held from the
  frame before, makes the size 0, so that the pass ends with the "Incorrect packet
  size" report.
\<close>

theorem truncated_header_read_counterexample:
  "bytesAvailable (logFile before_truncated_header) = 5
   \<and> fst (parse_loop 1 1 before_truncated_header) = StoppedOnCorruption
   \<and> timeStamp (snd (snd (parse_loop 1 1 before_truncated_header))) = 0x04030201
   \<and> fpos (logFile (snd (snd (parse_loop 1 1 before_truncated_header)))) = 18
   \<and> messages (snd (snd (parse_loop 1 1 before_truncated_header))) = [IncorrectPacketSize 0]
   \<and> parse_body 0 0 (log_at truncated_header_log 0) = Next 1 1 before_truncated_header
   \<and> fst (parseLogFile 0 0 (log_at truncated_header_log 0)) = StoppedOnCorruption
   \<and> timeStamp (snd (snd (parseLogFile 0 0 (log_at truncated_header_log 0)))) = 0x04030201"
  by code_simp

text \<open>
  C4, as the code has it. The guard at the top of a turn asks for the 4 bytes of the
  timestamp: with fewer than 4 bytes left the streaming pass stops without reading
  anything, as at the end of the file; nothing of the state changes but that the file is
  closed afterwards.
\<close>

theorem no_read_below_four_bytes:
  assumes "bytesAvailable (logFile s) < 4"
  shows "parse_loop ps idx s = (Completed, idx, s)
       \<and> parseLogFile ps idx s = (Completed, idx, stopExport s)"
proof -
  have "parse_loop ps idx s = (Completed, idx, s)"
  proof (cases "atEnd (logFile s)")
    case True
    then show ?thesis by (rule parse_loop_atEnd)
  next
    case False
    have "parse_body ps idx s = Break Completed idx s"
      using assms by (simp add: parse_body_def)
    from parse_loop_break [OF False this] show ?thesis .
  qed
  then show ?thesis by (simp add: parseLogFile_def)
qed

theorem no_read_below_four_bytes_witness:
  "bytesAvailable (logFile (log_at [1, 2, 3] 0)) < 4
   \<and> parse_loop 0 0 (log_at [1, 2, 3] 0) = (Completed, 0, log_at [1, 2, 3] 0)
   \<and> parseLogFile 0 0 (log_at [1, 2, 3] 0) = (Completed, 0, stopExport (log_at [1, 2, 3] 0))"
proof -
  have h: "bytesAvailable (logFile (log_at [1, 2, 3] 0)) < 4"
    by (simp add: bytesAvailable_def log_at_def)
  from no_read_below_four_bytes [OF h, of 0 0] h show ?thesis by blast
qed

section \<open>One frame through both passes\<close>

lemma parse_loop_frames_end:
  assumes "is_open (logFile s)"
    and "drop (fpos (logFile s)) (content (logFile s)) = encode_frames fs"
    and "streamable fs"
  shows "parse_loop ps idx s =
          (Completed, idx + of_nat (length fs),
           s\<lparr>logFile := (logFile s)\<lparr>fpos := fpos (logFile s) + length (encode_frames fs)\<rparr>,
             timeStamp := last (timeStamp s # map fst fs),
             kmlTalk := kmlTalk s @ concat (map snd fs)\<rparr>)"
proof -
  let ?s1 = "s\<lparr>logFile := (logFile s)\<lparr>fpos := fpos (logFile s) + length (encode_frames fs)\<rparr>,
                timeStamp := last (timeStamp s # map fst fs),
                kmlTalk := kmlTalk s @ concat (map snd fs)\<rparr>"
  have d: "drop (fpos (logFile s)) (content (logFile s)) = encode_frames fs @ []"
    using assms(2) by simp
  from parse_loop_frames [OF assms(1) d assms(3), of ps idx]
  obtain ps' where a: "parse_loop ps idx s = parse_loop ps' (idx + of_nat (length fs)) ?s1"
    by blast
  have "length (drop (fpos (logFile s)) (content (logFile s))) = length (encode_frames fs)"
    by (simp only: assms(2))
  then have "atEnd (logFile ?s1)" by (auto simp: atEnd_def)
  from parse_loop_atEnd [OF this] a show ?thesis by simp
qed

text \<open>
  The claim C9 lets the payload be empty. The frame with timestamp 7 and no payload is
  encoded with the size 0, and the streaming pass takes the size 0 for corruption: it
  stops with the "Incorrect packet size" report and counts no frame.
\<close>

theorem empty_payload_round_trip_counterexample:
  "length ([] :: byte list) \<le> 0xFFFF
   \<and> fst (parseLogFile 0 0 (log_at (encode_frame 7 []) 0)) = StoppedOnCorruption
   \<and> fst (snd (parseLogFile 0 0 (log_at (encode_frame 7 []) 0))) = 0
   \<and> messages (snd (snd (parseLogFile 0 0 (log_at (encode_frame 7 []) 0))))
       = [IncorrectPacketSize 0]"
  by code_simp

text \<open>
  C9, as the code has it. A frame with timestamp T and a payload P of at least 1 and at
  most 0xFFFF bytes, encoded as the 4 bytes of T, the 8 bytes of the length of P and the
  bytes of P, comes back unchanged from both passes: the index pass records T at the
  offset of the frame, and the streaming pass leaves T in the timestamp member, hands
  exactly the bytes of P to the decoder, counts one frame and ends as \<open>Completed\<close>.
\<close>

theorem frame_round_trip:
  assumes "is_open (logFile s)"
    and "drop (fpos (logFile s)) (content (logFile s)) = encode_frame T P"
    and "1 \<le> length P" and "length P \<le> 0xFFFF"
  shows "preparseLogFile uninit s
           = (True, s\<lparr>timestampBuffer := [T], timestampPos := [fpos (logFile s)]\<rparr>)
       \<and> parseLogFile ps idx s
           = (Completed, idx + 1,
              s\<lparr>logFile := close (logFile s), timeStamp := T, kmlTalk := kmlTalk s @ P\<rparr>)"
proof -
  have d: "drop (fpos (logFile s)) (content (logFile s)) = encode_frames [(T, P)]"
    using assms(2) by simp
  have wf: "well_formed [(T, P)]" using assms(4) by simp
  have st: "streamable [(T, P)]" using assms(3,4) by simp
  have a: "preparseLogFile uninit s
           = (True, s\<lparr>timestampBuffer := [T], timestampPos := [fpos (logFile s)]\<rparr>)"
    by (simp add: preparseLogFile_frames [OF assms(1) d wf])
  have b: "parseLogFile ps idx s
           = (Completed, idx + 1,
              s\<lparr>logFile := close (logFile s), timeStamp := T, kmlTalk := kmlTalk s @ P\<rparr>)"
    by (simp add: parseLogFile_def parse_loop_frames_end [OF assms(1) d st] stopExport_def close_def)
  from a b show ?thesis by (rule conjI)
qed

theorem frame_round_trip_witness:
  "is_open (logFile (log_at (encode_frame 7 [1, 2, 3]) 0))
   \<and> drop (fpos (logFile (log_at (encode_frame 7 [1, 2, 3]) 0)))
        (content (logFile (log_at (encode_frame 7 [1, 2, 3]) 0))) = encode_frame 7 [1, 2, 3]
   \<and> 1 \<le> length [1 :: byte, 2, 3]
   \<and> length [1 :: byte, 2, 3] \<le> 0xFFFF
   \<and> timestampBuffer (snd (preparseLogFile zeroed (log_at (encode_frame 7 [1, 2, 3]) 0))) = [7]
   \<and> timeStamp (snd (snd (parseLogFile 0 0 (log_at (encode_frame 7 [1, 2, 3]) 0)))) = 7
   \<and> kmlTalk (snd (snd (parseLogFile 0 0 (log_at (encode_frame 7 [1, 2, 3]) 0)))) = [1, 2, 3]
   \<and> fst (parseLogFile 0 0 (log_at (encode_frame 7 [1, 2, 3]) 0)) = Completed"
proof -
  have h1: "is_open (logFile (log_at (encode_frame 7 [1, 2, 3]) 0))"
    by (simp add: log_at_def)
  have h2: "drop (fpos (logFile (log_at (encode_frame 7 [1, 2, 3]) 0)))
        (content (logFile (log_at (encode_frame 7 [1, 2, 3]) 0))) = encode_frame 7 [1, 2, 3]"
    by (simp add: log_at_def)
  have h3: "1 \<le> length [1 :: byte, 2, 3]" by simp
  have h4: "length [1 :: byte, 2, 3] \<le> 0xFFFF" by simp
  have a: "timestampBuffer (snd (preparseLogFile zeroed (log_at (encode_frame 7 [1, 2, 3]) 0))) = [7]
   \<and> timeStamp (snd (snd (parseLogFile 0 0 (log_at (encode_frame 7 [1, 2, 3]) 0)))) = 7
   \<and> kmlTalk (snd (snd (parseLogFile 0 0 (log_at (encode_frame 7 [1, 2, 3]) 0)))) = [1, 2, 3]
   \<and> fst (parseLogFile 0 0 (log_at (encode_frame 7 [1, 2, 3]) 0)) = Completed"
    using frame_round_trip [OF h1 h2 h3 h4, of zeroed 0 0] by (simp add: log_at_def)
  from h1 h2 h3 h4 a show ?thesis by blast
qed

section \<open>A frame of size zero in the two passes\<close>

lemma encode_frames_append: "encode_frames (fs @ gs) = encode_frames fs @ encode_frames gs"
  by (induction fs rule: encode_frames.induct) auto

lemma frame_offsets_append:
  "frame_offsets p (fs @ gs)
   = frame_offsets p fs @ frame_offsets (p + length (encode_frames fs)) gs"
  by (induction p fs rule: frame_offsets.induct) (auto simp: add.assoc)

lemma well_formed_append: "well_formed (fs @ gs) \<longleftrightarrow> well_formed fs \<and> well_formed gs"
  by (simp add: well_formed_def)

text \<open>
  C10. The two passes disagree on a frame whose size field is zero. When the log, from
  the cursor on, consists of frames both passes accept, a frame with an empty payload,
  and further well-formed frames, the index pass returns true with an entry for every
  frame: the frame of size zero passes the sync check, is indexed, and the next entry
  lies 12 bytes behind it. The streaming pass, run on the state the index pass leaves,
  takes the same frame for corruption and stops there: it has forwarded only the frames
  before it, which are fewer than the index holds.
\<close>

theorem passes_disagree_on_zero_size:
  assumes "is_open (logFile s)"
    and "drop (fpos (logFile s)) (content (logFile s))
         = encode_frames fs1 @ encode_frame T [] @ encode_frames fs2"
    and "well_formed fs1" and "streamable fs1" and "well_formed fs2"
  shows "fst (preparseLogFile uninit s)
       \<and> timestampPos (snd (preparseLogFile uninit s))
           = frame_offsets (fpos (logFile s)) fs1
             @ (fpos (logFile s) + length (encode_frames fs1))
             # frame_offsets (fpos (logFile s) + length (encode_frames fs1) + 12) fs2
       \<and> timestampBuffer (snd (preparseLogFile uninit s)) = map fst fs1 @ T # map fst fs2
       \<and> fst (parseLogFile ps idx (snd (preparseLogFile uninit s))) = StoppedOnCorruption
       \<and> fst (snd (parseLogFile ps idx (snd (preparseLogFile uninit s))))
           = idx + of_nat (length fs1)
       \<and> kmlTalk (snd (snd (parseLogFile ps idx (snd (preparseLogFile uninit s)))))
           = kmlTalk s @ concat (map snd fs1)
       \<and> length fs1 < length (timestampPos (snd (preparseLogFile uninit s)))"
proof -
  let ?fs = "fs1 @ (T, []) # fs2"
  let ?s' = "s\<lparr>timestampBuffer := map fst ?fs,
               timestampPos := frame_offsets (fpos (logFile s)) ?fs,
               messages := messages s @ order_messages [] ?fs\<rparr>"
  have d: "drop (fpos (logFile s)) (content (logFile s)) = encode_frames ?fs"
    using assms(2) by (simp add: encode_frames_append)
  have wf: "well_formed ?fs"
    using assms(3,5) by (simp add: well_formed_append)
  have i: "preparseLogFile uninit s = (True, ?s')"
    by (simp add: preparseLogFile_frames [OF assms(1) d wf])
  have o': "is_open (logFile ?s')" using assms(1) by simp
  have d': "drop (fpos (logFile ?s')) (content (logFile ?s'))
            = encode_frames fs1 @ le_bytes 4 (unat T) @ le_bytes 8 0 @ encode_frames fs2"
    using assms(2) by (simp add: encode_frame_def)
  have z: "(0 :: nat) < 2 ^ 64" "(0 :: nat) = 0 \<or> 1048576 < (0 :: nat)" by simp_all
  note c = parse_loop_corrupt [OF o' d' assms(4) z, of ps idx]
  have pl: "fst (parseLogFile ps idx ?s') = StoppedOnCorruption"
    "fst (snd (parseLogFile ps idx ?s')) = idx + of_nat (length fs1)"
    "kmlTalk (snd (snd (parseLogFile ps idx ?s'))) = kmlTalk s @ concat (map snd fs1)"
    unfolding parseLogFile_def c by (simp_all add: stopExport_def)
  show ?thesis
    unfolding i snd_conv fst_conv pl
    by (simp add: frame_offsets_append add.assoc)
qed

theorem passes_disagree_on_zero_size_witness:
  "is_open (logFile (log_at three_frames 0))
   \<and> drop (fpos (logFile (log_at three_frames 0))) (content (logFile (log_at three_frames 0)))
       = encode_frames [(5, [1, 2, 3])] @ encode_frame 3 [] @ encode_frames [(7, [9])]
   \<and> well_formed [(5, [1, 2, 3])] \<and> streamable [(5, [1, 2, 3])] \<and> well_formed [(7, [9])]
   \<and> fst (preparseLogFile zeroed (log_at three_frames 0))
   \<and> timestampPos (snd (preparseLogFile zeroed (log_at three_frames 0))) = [0, 15, 27]
   \<and> fst (parseLogFile 0 0 (snd (preparseLogFile zeroed (log_at three_frames 0))))
       = StoppedOnCorruption
   \<and> fst (snd (parseLogFile 0 0 (snd (preparseLogFile zeroed (log_at three_frames 0))))) = 1
   \<and> kmlTalk (snd (snd (parseLogFile 0 0 (snd (preparseLogFile zeroed (log_at three_frames 0))))))
       = [1, 2, 3]"
proof -
  have h1: "is_open (logFile (log_at three_frames 0))"
    by (simp add: log_at_def)
  have h2: "drop (fpos (logFile (log_at three_frames 0))) (content (logFile (log_at three_frames 0)))
       = encode_frames [(5, [1, 2, 3])] @ encode_frame 3 [] @ encode_frames [(7, [9])]"
    by (simp add: log_at_def three_frames_def)
  have h3: "well_formed [(5, [1, 2, 3])]" by simp
  have h4: "streamable [(5, [1, 2, 3])]" by simp
  have h5: "well_formed [(7, [9])]" by simp
  have a: "fst (preparseLogFile zeroed (log_at three_frames 0))
   \<and> timestampPos (snd (preparseLogFile zeroed (log_at three_frames 0))) = [0, 15, 27]
   \<and> fst (parseLogFile 0 0 (snd (preparseLogFile zeroed (log_at three_frames 0))))
       = StoppedOnCorruption
   \<and> fst (snd (parseLogFile 0 0 (snd (preparseLogFile zeroed (log_at three_frames 0))))) = 1
   \<and> kmlTalk (snd (snd (parseLogFile 0 0 (snd (preparseLogFile zeroed (log_at three_frames 0))))))
       = [1, 2, 3]"
    using passes_disagree_on_zero_size [OF h1 h2 h3 h4 h5, of zeroed 0 0]
    by (simp add: log_at_def)
  from h1 h2 h3 h4 h5 a show ?thesis by blast
qed

end
